theory Spec2Isabelle
  imports Main "HOL-Library.Word"
begin

section \<open>The expiring cache (class CacheService)\<close>

text \<open>
  The cache is a JavaScript \<open>Map\<close> from string keys to entries. A \<open>Map\<close> keeps its
  keys in insertion order, and \<open>cleanup\<close> and \<open>set\<close> sort its entries with a stable
  sort, so the order decides which entry is evicted among equal timestamps: the map is
  an association list with distinct keys. \<open>Date.now()\<close> is a parameter \<open>now\<close> (an
  integer number of milliseconds) of every operation that reads the clock.
\<close>

record 'v CacheEntry =
  data :: 'v
  timestamp :: int

type_synonym 'v EntryMap = "(string \<times> 'v CacheEntry) list"

text \<open>
  \<open>cleanupInterval\<close> is the timer handle; the model keeps whether the timer is armed.
\<close>

record 'v CacheService =
  cache :: "'v EntryMap"
  cleanupInterval :: bool

datatype js_error = TypeError

definition defaultTTL :: int where
  "defaultTTL = 5 * 60 * 1000"

definition MAX_CACHE_SIZE :: nat where
  "MAX_CACHE_SIZE = 100"

subsection \<open>The operations of \<open>Map\<close> the class uses\<close>

definition Map_get :: "string \<Rightarrow> 'v EntryMap \<Rightarrow> 'v CacheEntry option" where
  "Map_get key m = map_of m key"

text \<open>\<open>Map.set\<close> overwrites in place a key the map has and appends a new one.\<close>

fun Map_set :: "string \<Rightarrow> 'v CacheEntry \<Rightarrow> 'v EntryMap \<Rightarrow> 'v EntryMap" where
  "Map_set key e [] = [(key, e)]"
| "Map_set key e (p # m) = (if fst p = key then (key, e) # m else p # Map_set key e m)"

definition Map_delete :: "string \<Rightarrow> 'v EntryMap \<Rightarrow> 'v EntryMap" where
  "Map_delete key m = filter (\<lambda>p. fst p \<noteq> key) m"

text \<open>
  \<open>Array.from(this.cache.entries()).sort((a, b) => a[1].timestamp - b[1].timestamp)\<close>:
  ascending by timestamp, stable.
\<close>

definition sortedEntries :: "'v EntryMap \<Rightarrow> 'v EntryMap" where
  "sortedEntries m = sort_key (\<lambda>p. timestamp (snd p)) m"

subsection \<open>The methods\<close>

definition CacheService_new :: "'v CacheService" where
  "CacheService_new = \<lparr>cache = [], cleanupInterval = True\<rparr>"

text \<open>
  \<open>cleanup\<close>: the first loop deletes every entry older than \<open>defaultTTL\<close>; then, when the
  map is still larger than \<open>MAX_CACHE_SIZE\<close>, the keys of the first
  \<open>size - MAX_CACHE_SIZE\<close> sorted entries are deleted one by one.
\<close>

definition expired :: "int \<Rightarrow> 'v CacheEntry \<Rightarrow> bool" where
  "expired now entry = (now - timestamp entry > defaultTTL)"

definition cleanup :: "'v CacheService \<Rightarrow> int \<Rightarrow> 'v CacheService" where
  "cleanup c now =
    (let m1 = filter (\<lambda>p. \<not> expired now (snd p)) (cache c);
         m2 = (if length m1 > MAX_CACHE_SIZE
               then foldl (\<lambda>m p. Map_delete (fst p) m) m1
                      (take (length m1 - MAX_CACHE_SIZE) (sortedEntries m1))
               else m1)
     in c\<lparr>cache := m2\<rparr>)"

text \<open>The timer fires: \<open>cleanup\<close> runs while the interval is armed.\<close>

definition tick :: "'v CacheService \<Rightarrow> int \<Rightarrow> 'v CacheService" where
  "tick c now = (if cleanupInterval c then cleanup c now else c)"

text \<open>
  \<open>get(key, ttl?)\<close>: \<open>ttl\<close> is \<open>None\<close> when the argument is omitted. \<open>ttl || this.defaultTTL\<close>
  takes the default for every falsy \<open>ttl\<close>, that is for an omitted one and for 0.
\<close>

definition maxAge_of :: "int option \<Rightarrow> int" where
  "maxAge_of ttl = (case ttl of None \<Rightarrow> defaultTTL | Some t \<Rightarrow> if t = 0 then defaultTTL else t)"

definition CacheService_get ::
  "'v CacheService \<Rightarrow> string \<Rightarrow> int option \<Rightarrow> int \<Rightarrow> 'v option \<times> 'v CacheService" where
  "CacheService_get c key ttl now =
    (case Map_get key (cache c) of
       None \<Rightarrow> (None, c)
     | Some entry \<Rightarrow>
         (let maxAge = maxAge_of ttl;
              age = now - timestamp entry
          in if age > maxAge
             then (None, c\<lparr>cache := Map_delete key (cache c)\<rparr>)
             else (Some (data entry), c)))"

text \<open>
  \<open>set(key, data)\<close>: at \<open>MAX_CACHE_SIZE\<close> entries or more, the key of the first sorted
  entry is deleted before the new entry is stored. \<open>sorted[0][0]\<close> on an empty array
  would throw a \<open>TypeError\<close>; the branch is kept.
\<close>

definition evictOldest :: "'v EntryMap \<Rightarrow> js_error + 'v EntryMap" where
  "evictOldest m =
    (if length m \<ge> MAX_CACHE_SIZE
     then (case sortedEntries m of
             [] \<Rightarrow> Inl TypeError
           | oldest # _ \<Rightarrow> Inr (Map_delete (fst oldest) m))
     else Inr m)"

definition CacheService_set ::
  "'v CacheService \<Rightarrow> string \<Rightarrow> 'v \<Rightarrow> int \<Rightarrow> js_error + 'v CacheService" where
  "CacheService_set c key d now =
    (case evictOldest (cache c) of
       Inl err \<Rightarrow> Inl err
     | Inr m \<Rightarrow> Inr (c\<lparr>cache := Map_set key \<lparr>data = d, timestamp = now\<rparr> m\<rparr>))"

definition CacheService_delete :: "'v CacheService \<Rightarrow> string \<Rightarrow> 'v CacheService" where
  "CacheService_delete c key = c\<lparr>cache := Map_delete key (cache c)\<rparr>"

definition CacheService_clear :: "'v CacheService \<Rightarrow> 'v CacheService" where
  "CacheService_clear c = c\<lparr>cache := []\<rparr>"

record CacheStats =
  stats_size :: nat
  maxSize :: nat
  stats_keys :: "string list"

definition CacheService_getStats :: "'v CacheService \<Rightarrow> CacheStats" where
  "CacheService_getStats c =
     \<lparr>stats_size = length (cache c), maxSize = MAX_CACHE_SIZE, stats_keys = map fst (cache c)\<rparr>"

text \<open>\<open>destroy\<close>: \<open>clearInterval\<close>, then \<open>Map.clear\<close>. The class keeps no other state.\<close>

definition CacheService_destroy :: "'v CacheService \<Rightarrow> 'v CacheService" where
  "CacheService_destroy c = c\<lparr>cleanupInterval := False, cache := []\<rparr>"

subsection \<open>Histories of calls\<close>

text \<open>
  The states a cache can be in: the one the constructor builds, and every state a method
  call or a firing of the timer reaches from one of them, at any reading of the clock.
\<close>

datatype 'v cache_call =
    Call_get string "int option"
  | Call_set string 'v
  | Call_delete string
  | Call_clear
  | Call_getStats
  | Call_destroy
  | Timer_fires

fun call :: "'v CacheService \<Rightarrow> 'v cache_call \<Rightarrow> int \<Rightarrow> js_error + 'v CacheService" where
  "call c (Call_get key ttl) now = Inr (snd (CacheService_get c key ttl now))"
| "call c (Call_set key d) now = CacheService_set c key d now"
| "call c (Call_delete key) now = Inr (CacheService_delete c key)"
| "call c Call_clear now = Inr (CacheService_clear c)"
| "call c Call_getStats now = Inr c"
| "call c Call_destroy now = Inr (CacheService_destroy c)"
| "call c Timer_fires now = Inr (tick c now)"

inductive reachable :: "'v CacheService \<Rightarrow> bool" where
  fresh: "reachable CacheService_new"
| step: "reachable c \<Longrightarrow> call c op now = Inr c' \<Longrightarrow> reachable c'"

text \<open>
  A run of \<open>set\<close> calls, one per triple of key, value and clock reading, stopping at the
  first call that throws.
\<close>

definition entry_of :: "string \<times> 'v \<times> int \<Rightarrow> string \<times> 'v CacheEntry" where
  "entry_of x = (fst x, \<lparr>data = fst (snd x), timestamp = snd (snd x)\<rparr>)"

fun set_all :: "'v CacheService \<Rightarrow> (string \<times> 'v \<times> int) list \<Rightarrow> js_error + 'v CacheService" where
  "set_all c [] = Inr c"
| "set_all c (x # rest) =
     (case CacheService_set c (fst x) (fst (snd x)) (snd (snd x)) of
        Inl err \<Rightarrow> Inl err
      | Inr c' \<Rightarrow> set_all c' rest)"

text \<open>The invariant of the map: distinct keys, and no more than \<open>MAX_CACHE_SIZE\<close> of them.\<close>
definition wf_cache :: "'v CacheService \<Rightarrow> bool" where
  "wf_cache c = (distinct (map fst (cache c)) \<and> length (cache c) \<le> MAX_CACHE_SIZE)"

section \<open>The fetch aggregator (createGitHubService)\<close>

definition GRAPHQL_PAGE_SIZE :: nat where
  "GRAPHQL_PAGE_SIZE = 100"

definition MAX_PAGES :: nat where
  "MAX_PAGES = 100"

subsection \<open>The provider's records and the public ones\<close>

text \<open>
  A field that may be \<open>null\<close> is an option. The one-field objects of the GraphQL answer
  (\<open>defaultBranchRef.name\<close>, \<open>primaryLanguage.name\<close>, \<open>issues.totalCount\<close>,
  \<open>pullRequests.totalCount\<close>, \<open>watchers.totalCount\<close>) are the field they hold.
\<close>

record GraphQLPageInfo =
  hasNextPage :: bool
  endCursor :: "string option"

record GraphQLOwner =
  login :: string
  avatarUrl :: string

record GraphQLRelease =
  tagName :: string
  release_name :: "string option"
  publishedAt :: "string option"

record GraphQLRepository =
  node_id :: string
  databaseId :: int
  repo_name :: string
  nameWithOwner :: string
  url :: string
  repo_description :: "string option"
  isPrivate :: bool
  isFork :: bool
  stargazerCount :: int
  forkCount :: int
  defaultBranchRef :: "string option"
  createdAt :: string
  updatedAt :: string
  pushedAt :: "string option"
  primaryLanguage :: "string option"
  repo_owner :: GraphQLOwner
  issues_totalCount :: int
  pullRequests_totalCount :: int
  latestRelease :: "GraphQLRelease option"
  watchers_totalCount :: int

record GraphQLResponse =
  pageInfo :: GraphQLPageInfo
  nodes :: "GraphQLRepository list"

record Owner =
  owner_login :: string
  avatar_url :: string

record Release =
  tag_name :: string
  name :: string
  published_at :: string

record Repository =
  repo_id :: int
  repository_name :: string
  full_name :: string
  html_url :: string
  description :: "string option"
  private_repo :: bool
  fork :: bool
  stargazers_count :: int
  watchers_count :: int
  forks_count :: int
  open_issues_count :: int
  default_branch :: string
  created_at :: string
  updated_at :: string
  pushed_at :: string
  language :: "string option"
  owner :: Owner
  latest_release :: "Release option"
  open_prs_count :: int

text \<open>\<open>x || d\<close> on a string that may be \<open>null\<close>: \<open>d\<close> when \<open>x\<close> is \<open>null\<close> or empty.\<close>

definition or_string :: "string option \<Rightarrow> string \<Rightarrow> string" where
  "or_string x d = (case x of None \<Rightarrow> d | Some s \<Rightarrow> if s = [] then d else s)"

definition or_null :: "string option \<Rightarrow> string option" where
  "or_null x = (case x of None \<Rightarrow> None | Some s \<Rightarrow> if s = [] then None else Some s)"

text \<open>The function \<open>allRepos.map\<close> applies to every node.\<close>

definition toRepository :: "GraphQLRepository \<Rightarrow> Repository" where
  "toRepository repo =
    \<lparr>repo_id = databaseId repo,
     repository_name = repo_name repo,
     full_name = nameWithOwner repo,
     html_url = url repo,
     description = repo_description repo,
     private_repo = isPrivate repo,
     fork = isFork repo,
     stargazers_count = stargazerCount repo,
     watchers_count = watchers_totalCount repo,
     forks_count = forkCount repo,
     open_issues_count = issues_totalCount repo,
     default_branch = or_string (defaultBranchRef repo) ''main'',
     created_at = createdAt repo,
     updated_at = updatedAt repo,
     pushed_at = or_string (pushedAt repo) [],
     language = or_null (primaryLanguage repo),
     owner = \<lparr>owner_login = login (repo_owner repo), avatar_url = avatarUrl (repo_owner repo)\<rparr>,
     latest_release =
       (case latestRelease repo of
          None \<Rightarrow> None
        | Some r \<Rightarrow>
            Some \<lparr>tag_name = tagName r,
                  name = or_string (release_name r) (tagName r),
                  published_at = or_string (publishedAt r) []\<rparr>),
     open_prs_count = pullRequests_totalCount repo\<rparr>"

subsection \<open>Errors\<close>

text \<open>
  What \<open>octokit.graphql\<close> throws: an object with a message, and perhaps a list of
  GraphQL errors (their messages) and an HTTP status. What the service and the route
  handlers throw and catch is a JavaScript error: a message, and, when the thrown object
  has them, a \<open>status\<close>, a \<open>response.status\<close> and \<open>response.errors\<close> (the \<open>type\<close> of each).
\<close>

record api_error =
  api_errors :: "string list option"
  api_status :: "nat option"
  api_message :: string

record js_exn =
  message :: string
  status :: "nat option"
  response_status :: "nat option"
  response_error_types :: "string list"

definition Error :: "string \<Rightarrow> js_exn" where
  "Error msg = \<lparr>message = msg, status = None, response_status = None, response_error_types = []\<rparr>"

text \<open>Decimal digits of a number, as a template string prints it.\<close>

fun show_nat :: "nat \<Rightarrow> string" where
  "show_nat n =
     (if n < 10 then [''0123456789'' ! n]
      else show_nat (n div 10) @ [''0123456789'' ! (n mod 10)])"

declare show_nat.simps [simp del]

fun join :: "string \<Rightarrow> string list \<Rightarrow> string" where
  "join sep [] = []"
| "join sep [s] = s"
| "join sep (s # t # rest) = s @ sep @ join sep (t # rest)"

text \<open>
  The \<open>catch\<close> block of \<open>fetchRepositories\<close>: an array of \<open>errors\<close> is truthy even when
  empty; a \<open>status\<close> of 0 is falsy.
\<close>

definition rethrow :: "api_error \<Rightarrow> js_exn" where
  "rethrow err =
    (case api_errors err of
       Some msgs \<Rightarrow> Error (''GraphQL API error: '' @ join '', '' msgs)
     | None \<Rightarrow>
         (case api_status err of
            Some st \<Rightarrow>
              if st \<noteq> 0
              then Error (''GitHub API HTTP '' @ show_nat st @ '': '' @ api_message err)
              else Error (''Failed to fetch repositories: '' @ api_message err)
          | None \<Rightarrow> Error (''Failed to fetch repositories: '' @ api_message err)))"

subsection \<open>The provider and the loop\<close>

text \<open>
  The provider is outside the program: \<open>octokit.graphql(query, {cursor})\<close> is a
  function of the provider's state and of the cursor sent, which answers with a page or
  throws, and leaves the provider in a new state.
\<close>

type_synonym 's provider = "'s \<Rightarrow> string option \<Rightarrow> (api_error + GraphQLResponse) \<times> 's"

text \<open>
  The variables of the loop, and two records of what it did: the cursors of the
  requests issued, in order, and the state the provider is left in.
\<close>

record 's fetch_state =
  allRepos :: "GraphQLRepository list"
  has_next :: bool
  cursor :: "string option"
  pageCount :: nat
  requests :: "string option list"
  provider_state :: 's

definition fetch_start :: "'s \<Rightarrow> 's fetch_state" where
  "fetch_start s =
     \<lparr>allRepos = [], has_next = True, cursor = None, pageCount = 0, requests = [],
      provider_state = s\<rparr>"

text \<open>
  \<open>while (hasNextPage && pageCount < MAX_PAGES)\<close>; the loop's variable \<open>hasNextPage\<close> is
  the field \<open>has_next\<close>. A request that throws leaves the loop with the error and the state
  at the throw.
\<close>

function fetch_pages :: "'s provider \<Rightarrow> 's fetch_state \<Rightarrow> api_error option \<times> 's fetch_state" where
  "fetch_pages p st =
    (if has_next st \<and> pageCount st < MAX_PAGES
     then (case p (provider_state st) (cursor st) of
             (Inl err, s') \<Rightarrow>
               (Some err, st\<lparr>requests := requests st @ [cursor st], provider_state := s'\<rparr>)
           | (Inr response, s') \<Rightarrow>
               fetch_pages p
                 \<lparr>allRepos = allRepos st @ nodes response,
                  has_next = hasNextPage (pageInfo response),
                  cursor = endCursor (pageInfo response),
                  pageCount = pageCount st + 1,
                  requests = requests st @ [cursor st],
                  provider_state = s'\<rparr>)
     else (None, st))"
  by pat_completeness auto
termination
  by (relation "measure (\<lambda>(p, st). MAX_PAGES - pageCount st)") auto

declare fetch_pages.simps [simp del]

datatype console_line =
    Warn_max_pages nat
  | Log_fetched nat nat
  | Error_api api_error

record 's fetch_result =
  outcome :: "js_exn + Repository list"
  console :: "console_line list"
  requests_issued :: "string option list"
  provider_after :: 's

definition fetchRepositories :: "'s provider \<Rightarrow> 's \<Rightarrow> 's fetch_result" where
  "fetchRepositories p s =
    (case fetch_pages p (fetch_start s) of
       (Some err, st) \<Rightarrow>
         \<lparr>outcome = Inl (rethrow err),
          console = [Error_api err],
          requests_issued = requests st,
          provider_after = provider_state st\<rparr>
     | (None, st) \<Rightarrow>
         \<lparr>outcome = Inr (map toRepository (allRepos st)),
          console =
            (if pageCount st \<ge> MAX_PAGES \<and> has_next st then [Warn_max_pages MAX_PAGES] else [])
            @ [Log_fetched (length (allRepos st)) (pageCount st)],
          requests_issued = requests st,
          provider_after = provider_state st\<rparr>)"

subsection \<open>Providers that serve given pages\<close>

text \<open>
  \<open>serves p s cur pages\<close>: from the state \<open>s\<close>, the request with the cursor \<open>cur\<close> is
  answered with the first of \<open>pages\<close>, which signals a next page when one follows in the
  list, and the request with that page's end cursor is answered with the second, and so
  on down the list.
\<close>

fun serves :: "'s provider \<Rightarrow> 's \<Rightarrow> string option \<Rightarrow> GraphQLResponse list \<Rightarrow> bool" where
  "serves p s cur [] = True"
| "serves p s cur (page # rest) =
     (fst (p s cur) = Inr page \<and>
      (rest \<noteq> [] \<longrightarrow> hasNextPage (pageInfo page)) \<and>
      serves p (snd (p s cur)) (endCursor (pageInfo page)) rest)"

text \<open>The cursors of the requests that fetch \<open>pages\<close> from the start.\<close>

definition cursors_for :: "GraphQLResponse list \<Rightarrow> string option list" where
  "cursors_for pages = None # map (\<lambda>page. endCursor (pageInfo page)) (butlast pages)"

text \<open>
  A simulated provider that answers from a script, one answer per request in order,
  and throws when the script is over; and one that gives the same answer for ever.
\<close>

fun scripted :: "(api_error + GraphQLResponse) list provider" where
  "scripted [] cur =
     (Inl \<lparr>api_errors = None, api_status = None, api_message = ''no more answers''\<rparr>, [])"
| "scripted (answer # rest) cur = (answer, rest)"

definition always :: "GraphQLResponse \<Rightarrow> unit provider" where
  "always page s cur = (Inr page, s)"

text \<open>
  One turn of the loop on an answered request, and the loop's variables after the
  requests that fetch the pages of a list.
\<close>

definition absorb :: "'s fetch_state \<Rightarrow> GraphQLResponse \<Rightarrow> 's \<Rightarrow> 's fetch_state" where
  "absorb st response s' =
     \<lparr>allRepos = allRepos st @ nodes response,
      has_next = hasNextPage (pageInfo response),
      cursor = endCursor (pageInfo response),
      pageCount = pageCount st + 1,
      requests = requests st @ [cursor st],
      provider_state = s'\<rparr>"

fun after_pages :: "'s provider \<Rightarrow> 's fetch_state \<Rightarrow> GraphQLResponse list \<Rightarrow> 's fetch_state" where
  "after_pages p st [] = st"
| "after_pages p st (page # rest) =
     after_pages p (absorb st page (snd (p (provider_state st) (cursor st)))) rest"

subsection \<open>Sample data\<close>

text \<open>A node numbered \<open>i\<close>, and page \<open>i\<close> of \<open>n\<close> pages of one node each.\<close>

definition sample_repo :: "nat \<Rightarrow> GraphQLRepository" where
  "sample_repo i =
    \<lparr>node_id = ''R_'' @ show_nat i,
     databaseId = int i,
     repo_name = ''repo'' @ show_nat i,
     nameWithOwner = ''octocat/repo'' @ show_nat i,
     url = ''https://github.com/octocat/repo'' @ show_nat i,
     repo_description = None,
     isPrivate = False,
     isFork = False,
     stargazerCount = 0,
     forkCount = 0,
     defaultBranchRef = Some ''main'',
     createdAt = ''2024-01-01T00:00:00Z'',
     updatedAt = ''2024-01-02T00:00:00Z'',
     pushedAt = None,
     primaryLanguage = Some ''TypeScript'',
     repo_owner = \<lparr>login = ''octocat'', avatarUrl = ''https://github.com/octocat.png''\<rparr>,
     issues_totalCount = 0,
     pullRequests_totalCount = 0,
     latestRelease = None,
     watchers_totalCount = 0\<rparr>"

definition sample_page :: "nat \<Rightarrow> nat \<Rightarrow> GraphQLResponse" where
  "sample_page n i =
    \<lparr>pageInfo = \<lparr>hasNextPage = (Suc i < n), endCursor = Some (show_nat i)\<rparr>,
     nodes = [sample_repo i]\<rparr>"

section \<open>The cipher (services/encryption.ts)\<close>

text \<open>
  A \<open>Buffer\<close> is a list of bytes. A JavaScript string is a list of 16-bit code units; a
  text the program itself writes (a key of the cache, a message, a base64 or a hex
  text) is a \<open>string\<close>.
\<close>

type_synonym byte = "8 word"
type_synonym buffer = "byte list"
type_synonym js_string = "16 word list"

definition IV_LENGTH :: nat where "IV_LENGTH = 16"
definition SALT_LENGTH :: nat where "SALT_LENGTH = 64"
definition TAG_LENGTH :: nat where "TAG_LENGTH = 16"
definition KEY_LENGTH :: nat where "KEY_LENGTH = 32"

subsection \<open>The encodings of \<open>Buffer\<close>\<close>

text \<open>
  Node's codecs are not part of the repository; they are written out here as Node
  documents them. \<open>'hex'\<close>: two lower-case digits per byte; decoding takes the pairs of
  digits, of either case, up to the first one that is not a pair of digits.
\<close>

definition hex_digits :: string where
  "hex_digits = ''0123456789abcdef''"

definition hex_encode :: "buffer \<Rightarrow> string" where
  "hex_encode bs =
     concat (map (\<lambda>b. [hex_digits ! (unat b div 16), hex_digits ! (unat b mod 16)]) bs)"

definition hex_value :: "char \<Rightarrow> nat option" where
  "hex_value c =
     (case map_of (zip hex_digits [0..<16]) c of
        Some v \<Rightarrow> Some v
      | None \<Rightarrow> map_of (zip ''ABCDEF'' [10..<16]) c)"

fun hex_decode :: "string \<Rightarrow> buffer" where
  "hex_decode (a # b # rest) =
     (case hex_value a of
        None \<Rightarrow> []
      | Some h \<Rightarrow>
          (case hex_value b of
             None \<Rightarrow> []
           | Some l \<Rightarrow> of_nat (h * 16 + l) # hex_decode rest))"
| "hex_decode [a] = []"
| "hex_decode [] = []"

text \<open>
  \<open>'base64'\<close>: the standard alphabet with \<open>=\<close> padding. Decoding is lenient: it stops at
  the first \<open>=\<close>, skips every character outside the alphabet, takes \<open>-\<close> and \<open>_\<close> for
  \<open>+\<close> and \<open>/\<close>, and makes one byte of two trailing characters and two bytes of three.
\<close>

definition b64_alphabet :: string where
  "b64_alphabet = ''ABCDEFGHIJKLMNOPQRSTUVWXYZabcdefghijklmnopqrstuvwxyz0123456789+/''"

definition b64_char :: "nat \<Rightarrow> char" where
  "b64_char n = b64_alphabet ! n"

fun base64_encode :: "buffer \<Rightarrow> string" where
  "base64_encode [] = []"
| "base64_encode [a] =
     [b64_char (unat a div 4), b64_char (unat a mod 4 * 16), CHR ''='', CHR ''='']"
| "base64_encode [a, b] =
     [b64_char (unat a div 4), b64_char (unat a mod 4 * 16 + unat b div 16),
      b64_char (unat b mod 16 * 4), CHR ''='']"
| "base64_encode (a # b # c # rest) =
     [b64_char (unat a div 4), b64_char (unat a mod 4 * 16 + unat b div 16),
      b64_char (unat b mod 16 * 4 + unat c div 64), b64_char (unat c mod 64)]
     @ base64_encode rest"

definition b64_value :: "char \<Rightarrow> nat option" where
  "b64_value c =
     (if c = CHR ''-'' then Some 62
      else if c = CHR ''_'' then Some 63
      else map_of (zip b64_alphabet [0..<64]) c)"

definition b64_sextets :: "string \<Rightarrow> nat list" where
  "b64_sextets s = List.map_filter b64_value (takeWhile (\<lambda>c. c \<noteq> CHR ''='') s)"

fun b64_bytes :: "nat list \<Rightarrow> buffer" where
  "b64_bytes (a # b # c # d # rest) =
     [of_nat (a * 4 + b div 16), of_nat (b mod 16 * 16 + c div 4), of_nat (c mod 4 * 64 + d)]
     @ b64_bytes rest"
| "b64_bytes [a, b, c] = [of_nat (a * 4 + b div 16), of_nat (b mod 16 * 16 + c div 4)]"
| "b64_bytes [a, b] = [of_nat (a * 4 + b div 16)]"
| "b64_bytes [a] = []"
| "b64_bytes [] = []"

definition base64_decode :: "string \<Rightarrow> buffer" where
  "base64_decode s = b64_bytes (b64_sextets s)"

text \<open>
  \<open>'utf8'\<close>. Encoding reads the code units as UTF-16; a surrogate that is not part of a
  pair is encoded as U+FFFD. Decoding follows the WHATWG decoder: every maximal
  ill-formed part of the input gives one U+FFFD, and a code point above U+FFFF gives a
  surrogate pair.
\<close>

definition is_high_surrogate :: "16 word \<Rightarrow> bool" where
  "is_high_surrogate u = (0xD800 \<le> unat u \<and> unat u \<le> 0xDBFF)"

definition is_low_surrogate :: "16 word \<Rightarrow> bool" where
  "is_low_surrogate u = (0xDC00 \<le> unat u \<and> unat u \<le> 0xDFFF)"

definition lone_unit :: "16 word \<Rightarrow> nat" where
  "lone_unit u = (if is_high_surrogate u \<or> is_low_surrogate u then 0xFFFD else unat u)"

fun code_points :: "js_string \<Rightarrow> nat list" where
  "code_points [] = []"
| "code_points [u] = [lone_unit u]"
| "code_points (u # v # rest) =
     (if is_high_surrogate u \<and> is_low_surrogate v
      then (0x10000 + (unat u - 0xD800) * 1024 + (unat v - 0xDC00)) # code_points rest
      else lone_unit u # code_points (v # rest))"

definition utf8_bytes :: "nat \<Rightarrow> buffer" where
  "utf8_bytes cp =
     (if cp < 0x80 then [of_nat cp]
      else if cp < 0x800 then [of_nat (0xC0 + cp div 64), of_nat (0x80 + cp mod 64)]
      else if cp < 0x10000 then
        [of_nat (0xE0 + cp div 4096), of_nat (0x80 + cp div 64 mod 64),
         of_nat (0x80 + cp mod 64)]
      else
        [of_nat (0xF0 + cp div 262144), of_nat (0x80 + cp div 4096 mod 64),
         of_nat (0x80 + cp div 64 mod 64), of_nat (0x80 + cp mod 64)])"

definition utf8_encode :: "js_string \<Rightarrow> buffer" where
  "utf8_encode s = concat (map utf8_bytes (code_points s))"

definition between :: "nat \<Rightarrow> nat \<Rightarrow> byte \<Rightarrow> bool" where
  "between lo hi b = (lo \<le> unat b \<and> unat b \<le> hi)"

definition tail_bits :: "byte \<Rightarrow> nat" where
  "tail_bits b = unat b - 0x80"

fun utf8_code_points :: "buffer \<Rightarrow> nat list" where
  "utf8_code_points [] = []"
| "utf8_code_points (b0 # rest) =
     (if unat b0 < 0x80 then unat b0 # utf8_code_points rest
      else if between 0xC2 0xDF b0 then
        (case rest of
           [] \<Rightarrow> [0xFFFD]
         | b1 # r1 \<Rightarrow>
             if between 0x80 0xBF b1
             then ((unat b0 - 0xC0) * 64 + tail_bits b1) # utf8_code_points r1
             else 0xFFFD # utf8_code_points rest)
      else if between 0xE0 0xEF b0 then
        (case rest of
           [] \<Rightarrow> [0xFFFD]
         | b1 # r1 \<Rightarrow>
             if between (if unat b0 = 0xE0 then 0xA0 else 0x80)
                        (if unat b0 = 0xED then 0x9F else 0xBF) b1
             then (case r1 of
                     [] \<Rightarrow> [0xFFFD]
                   | b2 # r2 \<Rightarrow>
                       if between 0x80 0xBF b2
                       then ((unat b0 - 0xE0) * 4096 + tail_bits b1 * 64 + tail_bits b2)
                            # utf8_code_points r2
                       else 0xFFFD # utf8_code_points r1)
             else 0xFFFD # utf8_code_points rest)
      else if between 0xF0 0xF4 b0 then
        (case rest of
           [] \<Rightarrow> [0xFFFD]
         | b1 # r1 \<Rightarrow>
             if between (if unat b0 = 0xF0 then 0x90 else 0x80)
                        (if unat b0 = 0xF4 then 0x8F else 0xBF) b1
             then (case r1 of
                     [] \<Rightarrow> [0xFFFD]
                   | b2 # r2 \<Rightarrow>
                       if between 0x80 0xBF b2
                       then (case r2 of
                               [] \<Rightarrow> [0xFFFD]
                             | b3 # r3 \<Rightarrow>
                                 if between 0x80 0xBF b3
                                 then ((unat b0 - 0xF0) * 262144 + tail_bits b1 * 4096
                                       + tail_bits b2 * 64 + tail_bits b3)
                                      # utf8_code_points r3
                                 else 0xFFFD # utf8_code_points r2)
                       else 0xFFFD # utf8_code_points r1)
             else 0xFFFD # utf8_code_points rest)
      else 0xFFFD # utf8_code_points rest)"

declare utf8_code_points.simps(2) [simp del]

definition code_units :: "nat \<Rightarrow> js_string" where
  "code_units cp =
     (if cp < 0x10000 then [of_nat cp]
      else [of_nat (0xD800 + (cp - 0x10000) div 1024), of_nat (0xDC00 + (cp - 0x10000) mod 1024)])"

definition utf8_decode :: "buffer \<Rightarrow> js_string" where
  "utf8_decode bs = concat (map code_units (utf8_code_points bs))"

text \<open>A string is well formed when every surrogate in it is part of a pair.\<close>

fun well_formed :: "js_string \<Rightarrow> bool" where
  "well_formed [] = True"
| "well_formed [u] = (\<not> is_high_surrogate u \<and> \<not> is_low_surrogate u)"
| "well_formed (u # v # rest) =
     (if is_high_surrogate u then is_low_surrogate v \<and> well_formed rest
      else \<not> is_low_surrogate u \<and> well_formed (v # rest))"

text \<open>The code units of a text of the program.\<close>

definition js :: "string \<Rightarrow> js_string" where
  "js s = map (\<lambda>c. of_nat (of_char c)) s"

text \<open>A Unicode scalar value: a code point that is not a surrogate.\<close>

definition scalar :: "nat \<Rightarrow> bool" where
  "scalar cp = (cp < 0x110000 \<and> \<not> (0xD800 \<le> cp \<and> cp \<le> 0xDFFF))"

subsection \<open>The primitives and the state outside the program\<close>

text \<open>
  The module \<open>crypto\<close> of Node and the OpenSSL under it are not part of the repository.
  The primitives the program calls are parameters:
  \<^item> \<open>pbkdf2Sync password salt iterations keylen\<close> with the digest \<open>sha512\<close>;
  \<^item> \<open>gcm_encrypt key iv plaintext\<close>, for \<open>createCipheriv('aes-256-gcm', key, iv)\<close>,
    \<open>update\<close>, \<open>final\<close> and \<open>getAuthTag\<close>: the ciphertext and the tag;
  \<^item> \<open>gcm_decrypt key iv tag ciphertext\<close>, for \<open>createDecipheriv\<close>, \<open>setAuthTag\<close>,
    \<open>update\<close> and \<open>final\<close>: the plaintext, or the error one of the four throws;
  \<^item> \<open>sha256 data\<close>, for \<open>createHash('sha256').update(data).digest()\<close>.
\<close>

record crypto =
  pbkdf2Sync :: "buffer \<Rightarrow> buffer \<Rightarrow> nat \<Rightarrow> nat \<Rightarrow> buffer"
  gcm_encrypt :: "buffer \<Rightarrow> buffer \<Rightarrow> buffer \<Rightarrow> buffer \<times> buffer"
  gcm_decrypt :: "buffer \<Rightarrow> buffer \<Rightarrow> buffer \<Rightarrow> buffer \<Rightarrow> js_exn + buffer"
  sha256 :: "buffer \<Rightarrow> buffer"

text \<open>Of the configuration, the program's core reads the master key only.\<close>

record config =
  encryptionKey :: js_string

text \<open>
  The state the services work on: the table \<open>credentials\<close>, of which the program reads
  the column \<open>github_token\<close> by the unique \<open>user_id\<close>; the random source, a sequence of
  bytes and how many of them were drawn; and the calls made so far to the primitives, to
  the hash and to the table, in order.
\<close>

datatype lib_call =
    RandomBytes nat
  | Pbkdf2Sync buffer
  | Cipheriv buffer buffer
  | Decipheriv buffer buffer buffer
  | CreateHash js_string
  | Db_upsert string string
  | Db_get string
  | Db_delete string
  | Db_exists string

record world =
  credentials :: "string \<rightharpoonup> string"
  random_source :: "nat \<Rightarrow> byte"
  random_used :: nat
  calls :: "lib_call list"

definition called :: "lib_call \<Rightarrow> world \<Rightarrow> world" where
  "called c w = w\<lparr>calls := calls w @ [c]\<rparr>"

definition randomBytes :: "nat \<Rightarrow> world \<Rightarrow> buffer \<times> world" where
  "randomBytes n w =
     (map (random_source w) [random_used w ..< random_used w + n],
      called (RandomBytes n) (w\<lparr>random_used := random_used w + n\<rparr>))"

text \<open>\<open>buf.subarray(start, end)\<close> and \<open>buf.subarray(start)\<close>: both ends are clamped.\<close>

definition subarray :: "buffer \<Rightarrow> nat \<Rightarrow> nat \<Rightarrow> buffer" where
  "subarray buf start end = take (end - start) (drop start buf)"

definition subarray_from :: "buffer \<Rightarrow> nat \<Rightarrow> buffer" where
  "subarray_from buf start = drop start buf"

subsection \<open>\<open>deriveKey\<close>, \<open>encrypt\<close>, \<open>decrypt\<close>\<close>

definition deriveKey :: "config \<Rightarrow> crypto \<Rightarrow> buffer \<Rightarrow> world \<Rightarrow> buffer \<times> world" where
  "deriveKey cfg L salt w =
     (pbkdf2Sync L (utf8_encode (encryptionKey cfg)) salt 100000 KEY_LENGTH,
      called (Pbkdf2Sync salt) w)"

definition encrypt :: "config \<Rightarrow> crypto \<Rightarrow> js_string \<Rightarrow> world \<Rightarrow> string \<times> world" where
  "encrypt cfg L text w0 =
     (let (salt, w1) = randomBytes SALT_LENGTH w0;
          (key, w2) = deriveKey cfg L salt w1;
          (iv, w3) = randomBytes IV_LENGTH w2;
          (ciphertext, tag) = gcm_encrypt L key iv (utf8_encode text);
          w4 = called (Cipheriv key iv) w3;
          encrypted = hex_encode ciphertext;
          combined = salt @ iv @ tag @ hex_decode encrypted
      in (base64_encode combined, w4))"

definition decrypt ::
  "config \<Rightarrow> crypto \<Rightarrow> string \<Rightarrow> world \<Rightarrow> (js_exn + js_string) \<times> world" where
  "decrypt cfg L encryptedData w0 =
     (let combined = base64_decode encryptedData;
          salt = subarray combined 0 SALT_LENGTH;
          iv = subarray combined SALT_LENGTH (SALT_LENGTH + IV_LENGTH);
          tag = subarray combined (SALT_LENGTH + IV_LENGTH) (SALT_LENGTH + IV_LENGTH + TAG_LENGTH);
          encrypted = subarray_from combined (SALT_LENGTH + IV_LENGTH + TAG_LENGTH);
          (key, w1) = deriveKey cfg L salt w0;
          w2 = called (Decipheriv key iv tag) w1
      in case gcm_decrypt L key iv tag (hex_decode (hex_encode encrypted)) of
           Inl err \<Rightarrow> (Inl err, w2)
         | Inr plain \<Rightarrow> (Inr (utf8_decode plain), w2))"

subsection \<open>What the cipher needs of the primitives\<close>

text \<open>
  The key derived has the length asked for; with a key of \<open>KEY_LENGTH\<close> bytes and a
  nonce of \<open>IV_LENGTH\<close> bytes, the tag is \<open>TAG_LENGTH\<close> bytes long and decryption under the
  same key and nonce, with this tag, gives the plaintext back.
\<close>

definition sound_crypto :: "crypto \<Rightarrow> bool" where
  "sound_crypto L =
     ((\<forall>password salt iterations keylen.
         length (pbkdf2Sync L password salt iterations keylen) = keylen) \<and>
      (\<forall>key iv plain.
         length key = KEY_LENGTH \<and> length iv = IV_LENGTH \<longrightarrow>
         length (snd (gcm_encrypt L key iv plain)) = TAG_LENGTH \<and>
         gcm_decrypt L key iv (snd (gcm_encrypt L key iv plain)) (fst (gcm_encrypt L key iv plain))
           = Inr plain))"

text \<open>
  Two more properties a decipher of GCM may have. The ciphertext is as long as the
  plaintext. A decipher created without \<open>authTagLength\<close> takes a tag shorter than
  \<open>TAG_LENGTH\<close> and compares it with the first bytes of the tag it computes:
  \<open>accepts_truncated_tag L n\<close> says that a tag the decipher accepts is accepted cut to
  its first \<open>n\<close> bytes as well.
\<close>

definition length_preserving :: "crypto \<Rightarrow> bool" where
  "length_preserving L =
     (\<forall>key iv plain. length (fst (gcm_encrypt L key iv plain)) = length plain)"

definition accepts_truncated_tag :: "crypto \<Rightarrow> nat \<Rightarrow> bool" where
  "accepts_truncated_tag L n =
     (\<forall>key iv tag ciphertext plain.
        gcm_decrypt L key iv tag ciphertext = Inr plain \<longrightarrow>
        gcm_decrypt L key iv (take n tag) ciphertext = Inr plain)"

subsection \<open>Sample primitives and a sample state\<close>

text \<open>
  A toy instance of the primitives, to have one that is sound: the key repeats the first
  byte of the salt, the ciphertext adds the first byte of the key to every byte, the tag
  is sixteen copies of the length of the text, and the digest thirty-two copies of it.
\<close>

definition toy_tag :: "buffer \<Rightarrow> buffer" where
  "toy_tag text = replicate 16 (of_nat (length text))"

definition toy_crypto :: crypto where
  "toy_crypto =
     \<lparr>pbkdf2Sync = (\<lambda>password salt iterations keylen.
        replicate keylen (case salt of [] \<Rightarrow> 0 | b # _ \<Rightarrow> b)),
      gcm_encrypt = (\<lambda>key iv plain.
        (map (\<lambda>b. b + (case key of [] \<Rightarrow> 0 | k # _ \<Rightarrow> k)) plain, toy_tag plain)),
      gcm_decrypt = (\<lambda>key iv tag ciphertext.
        if tag = toy_tag ciphertext
        then Inr (map (\<lambda>b. b - (case key of [] \<Rightarrow> 0 | k # _ \<Rightarrow> k)) ciphertext)
        else Inl (Error ''Unsupported state or unable to authenticate data'')),
      sha256 = (\<lambda>data. replicate 32 (of_nat (length data)))\<rparr>"

text \<open>
  The same instance with a decipher that takes the tag lengths Node takes for GCM, 4, 8
  and 12 to 16 bytes, and compares the tag with the first bytes of the one it computes.
\<close>

definition truncating_crypto :: crypto where
  "truncating_crypto =
     toy_crypto\<lparr>gcm_decrypt := (\<lambda>key iv tag ciphertext.
        if length tag \<in> {4, 8, 12, 13, 14, 15, 16}
           \<and> tag = take (length tag) (toy_tag ciphertext)
        then Inr (map (\<lambda>b. b - (case key of [] \<Rightarrow> 0 | k # _ \<Rightarrow> k)) ciphertext)
        else Inl (Error ''Unsupported state or unable to authenticate data''))\<rparr>"

definition sample_config :: config where
  "sample_config = \<lparr>encryptionKey = js ''default-key-change-in-production''\<rparr>"

definition sample_world :: world where
  "sample_world =
     \<lparr>credentials = Map.empty, random_source = (\<lambda>i. of_nat (i + 1)), random_used = 0,
      calls = []\<rparr>"

section \<open>The credentials service and the routes\<close>

subsection \<open>Regular expressions\<close>











subsection \<open>The table \<open>credentials\<close>\<close>



definition db_delete :: "string \<Rightarrow> world \<Rightarrow> world" where
  "db_delete userId w =
     called (Db_delete userId) (w\<lparr>credentials := (credentials w)(userId := None)\<rparr>)"

definition db_exists :: "string \<Rightarrow> world \<Rightarrow> bool \<times> world" where
  "db_exists userId w = (credentials w userId \<noteq> None, called (Db_exists userId) w)"

subsection \<open>\<open>credentialsService\<close>\<close>

definition DEFAULT_USER_ID :: string where
  "DEFAULT_USER_ID = ''default''"



definition hasCredentials :: "string \<Rightarrow> world \<Rightarrow> bool \<times> world" where
  "hasCredentials userId w = db_exists userId w"

definition deleteCredentials :: "string \<Rightarrow> world \<Rightarrow> world" where
  "deleteCredentials userId w = db_delete userId w"


subsection \<open>Values at run time\<close>










subsection \<open>The services at a value of any type\<close>




subsection \<open>The routes of \<open>/api/credentials\<close>\<close>




definition get_credentials :: "world \<Rightarrow> bool \<times> world" where
  "get_credentials w = hasCredentials DEFAULT_USER_ID w"

definition delete_credentials :: "world \<Rightarrow> world" where
  "delete_credentials w = deleteCredentials DEFAULT_USER_ID w"

subsection \<open>The route \<open>GET /api/repositories\<close>\<close>







text \<open>What the cache holds under a key, and the answers of the route.\<close>

record cached_data =
  repositories :: "Repository list"
  cached_at :: string

datatype repositories_response =
    No_credentials
  | From_cache "Repository list" string
  | Fetched "Repository list"
  | Bad_credentials
  | Rate_limit_exceeded
  | Fetch_error string

fun repositories_status :: "repositories_response \<Rightarrow> nat" where
  "repositories_status No_credentials = 401"
| "repositories_status (From_cache repos at) = 200"
| "repositories_status (Fetched repos) = 200"
| "repositories_status Bad_credentials = 401"
| "repositories_status Rate_limit_exceeded = 429"
| "repositories_status (Fetch_error msg) = 500"


text \<open>
  The state of the server: the world of the services, the one cache, and the state of
  the provider. A request reads the clock twice, in \<open>cacheService.get\<close> and in
  \<open>cacheService.set\<close>, and the calendar once, for the time stamp it stores. What the
  handlers print on the console and the header \<open>Cache-Control\<close> of the fetched answer
  are left out: nothing in the program reads them.
\<close>

record 's server =
  services :: world
  cacheService :: "cached_data CacheService"
  github :: 's





subsection \<open>The language of an expression, and the format in words\<close>





subsection \<open>A sample request\<close>







section \<open>Properties of the expiring cache\<close>

subsection \<open>Facts about the map operations\<close>

lemma Map_get_Map_set: "Map_get k' (Map_set k e m) = (if k' = k then Some e else Map_get k' m)"
  by (induction m) (auto simp: Map_get_def)

lemma Map_get_Map_delete: "Map_get k' (Map_delete k m) = (if k' = k then None else Map_get k' m)"
  by (induction m) (auto simp: Map_get_def Map_delete_def)

lemma keys_Map_delete: "map fst (Map_delete k m) = removeAll k (map fst m)"
  by (induction m) (auto simp: Map_delete_def)

lemma distinct_Map_delete: "distinct (map fst m) \<Longrightarrow> distinct (map fst (Map_delete k m))"
  by (simp add: keys_Map_delete distinct_removeAll)

lemma length_Map_delete_le: "length (Map_delete k m) \<le> length m"
  by (simp add: Map_delete_def)

lemma length_Map_delete_mem:
  "k \<in> fst ` set m \<Longrightarrow> length (Map_delete k m) < length m"
proof -
  assume "k \<in> fst ` set m"
  then obtain p where "p \<in> set m" "\<not> (fst p \<noteq> k)" by auto
  then show ?thesis unfolding Map_delete_def by (rule length_filter_less)
qed

lemma length_Map_delete_distinct:
  "distinct (map fst m) \<Longrightarrow> k \<in> fst ` set m \<Longrightarrow> Suc (length (Map_delete k m)) = length m"
proof (induction m)
  case Nil
  then show ?case by simp
next
  case (Cons p m)
  show ?case
  proof (cases "fst p = k")
    case True
    with Cons.prems have "k \<notin> fst ` set m" by auto
    then have "filter (\<lambda>q. fst q \<noteq> k) m = m" by (auto simp: filter_id_conv)
    with True show ?thesis by (simp add: Map_delete_def)
  next
    case False
    with Cons show ?thesis by (auto simp: Map_delete_def)
  qed
qed

lemma Map_delete_absent: "k \<notin> fst ` set m \<Longrightarrow> Map_delete k m = m"
  by (auto simp: Map_delete_def filter_id_conv)

lemma Map_set_absent: "k \<notin> fst ` set m \<Longrightarrow> Map_set k e m = m @ [(k, e)]"
  by (induction m) auto

lemma keys_Map_set:
  "map fst (Map_set k e m) = (if k \<in> fst ` set m then map fst m else map fst m @ [k])"
  by (induction m) auto

lemma distinct_Map_set: "distinct (map fst m) \<Longrightarrow> distinct (map fst (Map_set k e m))"
  by (simp add: keys_Map_set)

lemma length_Map_set:
  "length (Map_set k e m) = (if k \<in> fst ` set m then length m else Suc (length m))"
  by (induction m) auto

subsection \<open>Eviction and the invariant\<close>

lemma sortedEntries_oldest:
  assumes "m \<noteq> []"
  obtains oldest rest where "sortedEntries m = oldest # rest" "oldest \<in> set m"
    "\<forall>p \<in> set m. timestamp (snd oldest) \<le> timestamp (snd p)"
proof -
  let ?f = "\<lambda>p::string \<times> 'a CacheEntry. timestamp (snd p)"
  from assms have "sort_key ?f m \<noteq> []"
    by (metis length_sort length_0_conv)
  then obtain oldest rest where s: "sort_key ?f m = oldest # rest"
    by (cases "sort_key ?f m") auto
  have "sorted (map ?f (sort_key ?f m))" by (rule sorted_sort_key)
  with s have "\<forall>p \<in> set rest. ?f oldest \<le> ?f p" by simp
  moreover have "set m = insert oldest (set rest)"
    using set_sort [of ?f m] s by simp
  ultimately have "\<forall>p \<in> set m. ?f oldest \<le> ?f p" by simp
  moreover have "oldest \<in> set m" using \<open>set m = insert oldest (set rest)\<close> by simp
  ultimately show ?thesis using s that by (simp add: sortedEntries_def)
qed

lemma evictOldest_below: "length m < MAX_CACHE_SIZE \<Longrightarrow> evictOldest m = Inr m"
  by (simp add: evictOldest_def)

lemma evictOldest_full:
  assumes "MAX_CACHE_SIZE \<le> length m"
  obtains oldest where "oldest \<in> set m"
    "\<forall>p \<in> set m. timestamp (snd oldest) \<le> timestamp (snd p)"
    "evictOldest m = Inr (Map_delete (fst oldest) m)"
proof -
  from assms have "m \<noteq> []" by (auto simp: MAX_CACHE_SIZE_def)
  then obtain oldest rest where "sortedEntries m = oldest # rest" "oldest \<in> set m"
    "\<forall>p \<in> set m. timestamp (snd oldest) \<le> timestamp (snd p)"
    by (rule sortedEntries_oldest)
  with assms that show ?thesis by (simp add: evictOldest_def)
qed

lemma evictOldest_makes_room:
  assumes "wf_cache c"
  obtains m where "evictOldest (cache c) = Inr m" "length m < MAX_CACHE_SIZE"
    "distinct (map fst m)" "set m \<subseteq> set (cache c)"
proof (cases "length (cache c) < MAX_CACHE_SIZE")
  case True
  with assms that [of "cache c"] show ?thesis
    by (simp add: evictOldest_below wf_cache_def)
next
  case False
  then have full: "MAX_CACHE_SIZE \<le> length (cache c)" by simp
  then obtain oldest where o: "oldest \<in> set (cache c)"
    "evictOldest (cache c) = Inr (Map_delete (fst oldest) (cache c))"
    by (rule evictOldest_full)
  from o(1) have "fst oldest \<in> fst ` set (cache c)" by auto
  then have "length (Map_delete (fst oldest) (cache c)) < length (cache c)"
    by (rule length_Map_delete_mem)
  with assms have "length (Map_delete (fst oldest) (cache c)) < MAX_CACHE_SIZE"
    by (simp add: wf_cache_def)
  moreover have "distinct (map fst (Map_delete (fst oldest) (cache c)))"
    using assms by (simp add: wf_cache_def distinct_Map_delete)
  moreover have "set (Map_delete (fst oldest) (cache c)) \<subseteq> set (cache c)"
    by (auto simp: Map_delete_def)
  ultimately show ?thesis using o(2) that by blast
qed

lemma wf_set:
  assumes "wf_cache c"
  obtains c' where "CacheService_set c key d now = Inr c'" "wf_cache c'"
proof -
  from assms obtain m where m: "evictOldest (cache c) = Inr m" "length m < MAX_CACHE_SIZE"
    "distinct (map fst m)"
    by (rule evictOldest_makes_room)
  let ?c' = "c\<lparr>cache := Map_set key \<lparr>data = d, timestamp = now\<rparr> m\<rparr>"
  have "CacheService_set c key d now = Inr ?c'"
    by (simp add: CacheService_set_def m(1))
  moreover have "wf_cache ?c'"
    using m(2,3) by (simp add: wf_cache_def distinct_Map_set length_Map_set)
  ultimately show ?thesis using that by blast
qed

lemma wf_new: "wf_cache CacheService_new"
  by (simp add: wf_cache_def CacheService_new_def)

lemma wf_delete: "wf_cache c \<Longrightarrow> wf_cache (CacheService_delete c key)"
  using length_Map_delete_le [of key "cache c"]
  by (simp add: wf_cache_def CacheService_delete_def distinct_Map_delete)

lemma wf_get: "wf_cache c \<Longrightarrow> wf_cache (snd (CacheService_get c key ttl now))"
  using length_Map_delete_le [of key "cache c"]
  by (auto simp: wf_cache_def CacheService_get_def Let_def distinct_Map_delete
      split: option.splits)

lemma wf_clear: "wf_cache (CacheService_clear c)"
  by (simp add: wf_cache_def CacheService_clear_def)

lemma wf_destroy: "wf_cache (CacheService_destroy c)"
  by (simp add: wf_cache_def CacheService_destroy_def)

lemma wf_cleanup: "wf_cache c \<Longrightarrow> wf_cache (cleanup c now)"
proof -
  assume w: "wf_cache c"
  let ?m1 = "filter (\<lambda>p. \<not> expired now (snd p)) (cache c)"
  from w have "length (cache c) \<le> MAX_CACHE_SIZE" by (simp add: wf_cache_def)
  then have le: "length ?m1 \<le> MAX_CACHE_SIZE" by (rule le_trans [OF length_filter_le])
  then have "cleanup c now = c\<lparr>cache := ?m1\<rparr>"
    by (simp add: cleanup_def Let_def)
  moreover have "distinct (map fst ?m1)"
    using w by (simp add: wf_cache_def distinct_map_filter)
  ultimately show ?thesis using le by (simp add: wf_cache_def)
qed

lemma wf_tick: "wf_cache c \<Longrightarrow> wf_cache (tick c now)"
  by (simp add: tick_def wf_cleanup)

lemma wf_call: "wf_cache c \<Longrightarrow> call c op now = Inr c' \<Longrightarrow> wf_cache c'"
proof (cases op)
  case (Call_set key d)
  assume "wf_cache c" "call c op now = Inr c'"
  with Call_set wf_set [of c key d now] show ?thesis by auto
qed (auto simp: wf_get wf_delete wf_clear wf_destroy wf_tick)

lemma reachable_wf: "reachable c \<Longrightarrow> wf_cache c"
  by (induction rule: reachable.induct) (auto simp: wf_new wf_call)


lemma set_Map_delete_distinct:
  "distinct (map fst m) \<Longrightarrow> p \<in> set m \<Longrightarrow> set (Map_delete (fst p) m) = set m - {p}"
proof -
  assume d: "distinct (map fst m)" and p: "p \<in> set m"
  have "q = p" if "q \<in> set m" "fst q = fst p" for q
    using d that p by (auto simp: distinct_map dest: inj_onD)
  then show ?thesis by (auto simp: Map_delete_def)
qed

lemma set_new_key_at_capacity:
  assumes w: "wf_cache c" and full: "length (cache c) = MAX_CACHE_SIZE"
    and new: "key \<notin> fst ` set (cache c)"
  obtains oldest where "oldest \<in> set (cache c)"
    "\<forall>p \<in> set (cache c). timestamp (snd oldest) \<le> timestamp (snd p)"
    "evictOldest (cache c) = Inr (Map_delete (fst oldest) (cache c))"
    "set (Map_delete (fst oldest) (cache c)) = set (cache c) - {oldest}"
    "Suc (length (Map_delete (fst oldest) (cache c))) = MAX_CACHE_SIZE"
    "CacheService_set c key d now
       = Inr (c\<lparr>cache := Map_delete (fst oldest) (cache c) @ [(key, \<lparr>data = d, timestamp = now\<rparr>)]\<rparr>)"
proof -
  from full have "MAX_CACHE_SIZE \<le> length (cache c)" by simp
  then obtain oldest where o: "oldest \<in> set (cache c)"
    "\<forall>p \<in> set (cache c). timestamp (snd oldest) \<le> timestamp (snd p)"
    "evictOldest (cache c) = Inr (Map_delete (fst oldest) (cache c))"
    by (rule evictOldest_full)
  from w have d: "distinct (map fst (cache c))" by (simp add: wf_cache_def)
  have s: "set (Map_delete (fst oldest) (cache c)) = set (cache c) - {oldest}"
    using d o(1) by (rule set_Map_delete_distinct)
  from o(1) have "fst oldest \<in> fst ` set (cache c)" by auto
  with d have l: "Suc (length (Map_delete (fst oldest) (cache c))) = MAX_CACHE_SIZE"
    using full length_Map_delete_distinct by metis
  from new s have "key \<notin> fst ` set (Map_delete (fst oldest) (cache c))" by auto
  then have "Map_set key \<lparr>data = d, timestamp = now\<rparr> (Map_delete (fst oldest) (cache c))
      = Map_delete (fst oldest) (cache c) @ [(key, \<lparr>data = d, timestamp = now\<rparr>)]"
    by (rule Map_set_absent)
  then have "CacheService_set c key d now
       = Inr (c\<lparr>cache := Map_delete (fst oldest) (cache c) @ [(key, \<lparr>data = d, timestamp = now\<rparr>)]\<rparr>)"
    by (simp add: CacheService_set_def o(3))
  with o s l that show ?thesis by blast
qed

lemma set_all_append:
  "set_all c (xs @ ys) = (case set_all c xs of Inl err \<Rightarrow> Inl err | Inr c' \<Rightarrow> set_all c' ys)"
  by (induction xs arbitrary: c) (auto split: sum.splits)

lemma set_all_below_capacity:
  assumes "distinct (map fst (cache c) @ map fst xs)"
    and "length (cache c) + length xs \<le> MAX_CACHE_SIZE"
  shows "set_all c xs = Inr (c\<lparr>cache := cache c @ map entry_of xs\<rparr>)"
  using assms
proof (induction xs arbitrary: c)
  case Nil
  then show ?case by simp
next
  case (Cons x xs)
  let ?e = "\<lparr>data = fst (snd x), timestamp = snd (snd x)\<rparr>"
  let ?c' = "c\<lparr>cache := cache c @ [(fst x, ?e)]\<rparr>"
  from Cons.prems have "length (cache c) < MAX_CACHE_SIZE" by simp
  then have "evictOldest (cache c) = Inr (cache c)" by (rule evictOldest_below)
  moreover from Cons.prems have "fst x \<notin> fst ` set (cache c)" by auto
  then have "Map_set (fst x) ?e (cache c) = cache c @ [(fst x, ?e)]" by (rule Map_set_absent)
  ultimately have s: "CacheService_set c (fst x) (fst (snd x)) (snd (snd x)) = Inr ?c'"
    by (simp add: CacheService_set_def)
  from Cons.prems have "distinct (map fst (cache ?c') @ map fst xs)"
    and "length (cache ?c') + length xs \<le> MAX_CACHE_SIZE"
    by auto
  then have "set_all ?c' xs = Inr (?c'\<lparr>cache := cache ?c' @ map entry_of xs\<rparr>)"
    by (rule Cons.IH)
  with s show ?case by (simp add: entry_of_def)
qed

lemma set_all_fills:
  assumes "distinct (map fst xs)" and "length xs \<le> MAX_CACHE_SIZE"
  shows "set_all CacheService_new xs = Inr \<lparr>cache = map entry_of xs, cleanupInterval = True\<rparr>"
  using set_all_below_capacity [of CacheService_new xs] assms
  by (simp add: CacheService_new_def)

lemma fst_entry_of: "fst (entry_of x) = fst x"
  by (simp add: entry_of_def)

lemma keys_entry_of: "map fst (map entry_of xs) = map fst xs"
  by (simp add: fst_entry_of)

lemma set_all_one_more:
  assumes d: "distinct (map fst (xs @ [x]))" and l: "length xs = MAX_CACHE_SIZE"
  obtains oldest where "oldest \<in> set (map entry_of xs)"
    "\<forall>p \<in> set (map entry_of xs). timestamp (snd oldest) \<le> timestamp (snd p)"
    "set_all CacheService_new (xs @ [x])
       = Inr \<lparr>cache = Map_delete (fst oldest) (map entry_of xs) @ [entry_of x],
              cleanupInterval = True\<rparr>"
    "length (Map_delete (fst oldest) (map entry_of xs) @ [entry_of x]) = MAX_CACHE_SIZE"
    "set (Map_delete (fst oldest) (map entry_of xs)) = set (map entry_of xs) - {oldest}"
proof -
  let ?c = "\<lparr>cache = map entry_of xs, cleanupInterval = True\<rparr>"
  from d l have f: "set_all CacheService_new xs = Inr ?c"
    by (intro set_all_fills) auto
  have "distinct (map fst (map entry_of xs))" using d by (simp only: keys_entry_of) simp
  then have w: "wf_cache ?c" using l by (simp add: wf_cache_def del: map_map)
  have full: "length (cache ?c) = MAX_CACHE_SIZE" using l by simp
  have new: "fst x \<notin> fst ` set (cache ?c)"
  proof -
    have "fst ` set (map entry_of xs) = set (map fst xs)"
      by (simp only: keys_entry_of [symmetric] set_map)
    with d show ?thesis by simp
  qed
  from w full new obtain oldest where o: "oldest \<in> set (cache ?c)"
    "\<forall>p \<in> set (cache ?c). timestamp (snd oldest) \<le> timestamp (snd p)"
    "set (Map_delete (fst oldest) (cache ?c)) = set (cache ?c) - {oldest}"
    "Suc (length (Map_delete (fst oldest) (cache ?c))) = MAX_CACHE_SIZE"
    "CacheService_set ?c (fst x) (fst (snd x)) (snd (snd x))
       = Inr (?c\<lparr>cache := Map_delete (fst oldest) (cache ?c)
                @ [(fst x, \<lparr>data = fst (snd x), timestamp = snd (snd x)\<rparr>)]\<rparr>)"
    by (rule set_new_key_at_capacity)
  from f o(5) have "set_all CacheService_new (xs @ [x])
       = Inr \<lparr>cache = Map_delete (fst oldest) (map entry_of xs) @ [entry_of x],
              cleanupInterval = True\<rparr>"
    by (simp add: set_all_append entry_of_def)
  with o that show ?thesis by simp
qed


lemma set_all_one_more_monotone:
  assumes d: "distinct (map fst (xs @ [x]))" and l: "length xs = MAX_CACHE_SIZE"
    and mono: "sorted (map (\<lambda>y. snd (snd y)) xs)"
  shows "set_all CacheService_new (xs @ [x])
           = Inr \<lparr>cache = map entry_of (tl xs @ [x]), cleanupInterval = True\<rparr>"
proof -
  let ?c = "\<lparr>cache = map entry_of xs, cleanupInterval = True\<rparr>"
  let ?e = "\<lparr>data = fst (snd x), timestamp = snd (snd x)\<rparr>"
  from d l have f: "set_all CacheService_new xs = Inr ?c"
    by (intro set_all_fills) auto
  from l obtain x0 xs' where xs: "xs = x0 # xs'"
    by (cases xs) (auto simp: MAX_CACHE_SIZE_def)
  have "((\<lambda>p. timestamp (snd p)) \<circ> entry_of) = (\<lambda>y::string \<times> 'a \<times> int. snd (snd y))"
    by (rule ext) (simp add: entry_of_def)
  with mono have "sorted (map (\<lambda>p. timestamp (snd p)) (map entry_of xs))"
    by simp
  then have "sortedEntries (map entry_of xs) = map entry_of xs"
    unfolding sortedEntries_def by (rule sort_key_id_if_sorted)
  then have "evictOldest (map entry_of xs) = Inr (Map_delete (fst x0) (map entry_of xs))"
    using l by (simp add: evictOldest_def xs fst_entry_of)
  moreover have "fst x0 \<notin> fst ` set (map entry_of xs')"
  proof -
    have "fst ` set (map entry_of xs') = set (map fst xs')"
      by (simp only: keys_entry_of [symmetric] set_map)
    with d xs show ?thesis by simp
  qed
  then have "Map_delete (fst x0) (map entry_of xs') = map entry_of xs'"
    by (rule Map_delete_absent)
  then have "Map_delete (fst x0) (map entry_of xs) = map entry_of xs'"
    by (simp add: xs Map_delete_def fst_entry_of)
  moreover have "fst x \<notin> fst ` set (map entry_of xs')"
  proof -
    have "fst ` set (map entry_of xs') = set (map fst xs')"
      by (simp only: keys_entry_of [symmetric] set_map)
    with d xs show ?thesis by simp
  qed
  then have "Map_set (fst x) ?e (map entry_of xs') = map entry_of xs' @ [(fst x, ?e)]"
    by (rule Map_set_absent)
  ultimately have "CacheService_set ?c (fst x) (fst (snd x)) (snd (snd x))
      = Inr \<lparr>cache = map entry_of xs' @ [(fst x, ?e)], cleanupInterval = True\<rparr>"
    by (simp add: CacheService_set_def)
  then have step: "CacheService_set ?c (fst x) (fst (snd x)) (snd (snd x))
      = Inr \<lparr>cache = map entry_of (tl xs @ [x]), cleanupInterval = True\<rparr>"
    by (simp add: xs entry_of_def)
  show ?thesis
    by (simp only: set_all_append f sum.case set_all.simps step)
qed

lemma set_all_reachable: "reachable c \<Longrightarrow> set_all c xs = Inr c' \<Longrightarrow> reachable c'"
proof (induction xs arbitrary: c)
  case Nil
  then show ?case by simp
next
  case (Cons x xs)
  from Cons.prems(2) obtain c1 where s: "CacheService_set c (fst x) (fst (snd x)) (snd (snd x)) = Inr c1"
    and rest: "set_all c1 xs = Inr c'"
    by (auto split: sum.splits)
  from s have "call c (Call_set (fst x) (fst (snd x))) (snd (snd x)) = Inr c1" by simp
  with Cons.prems(1) have "reachable c1" by (rule reachable.step)
  then show ?case using rest by (rule Cons.IH)
qed

subsection \<open>Reading and writing one entry\<close>


lemma set_stores:
  assumes "CacheService_set c key v t0 = Inr c1"
  shows "Map_get key (cache c1) = Some \<lparr>data = v, timestamp = t0\<rparr>"
  using assms
  by (auto simp: CacheService_set_def Map_get_Map_set split: sum.splits)

lemma get_hit:
  "Map_get key (cache c) = Some entry \<Longrightarrow> now - timestamp entry \<le> maxAge_of ttl
   \<Longrightarrow> CacheService_get c key ttl now = (Some (data entry), c)"
  by (simp add: CacheService_get_def Let_def)

lemma get_miss:
  "Map_get key (cache c) = Some entry \<Longrightarrow> now - timestamp entry > maxAge_of ttl
   \<Longrightarrow> CacheService_get c key ttl now = (None, c\<lparr>cache := Map_delete key (cache c)\<rparr>)"
  by (simp add: CacheService_get_def Let_def)

lemma get_absent:
  "Map_get key (cache c) = None \<Longrightarrow> CacheService_get c key ttl now = (None, c)"
  by (simp add: CacheService_get_def)

text \<open>
  Claim C5 (lazy expiry on read). For a positive \<open>maxAge\<close>, \<open>get(key, maxAge)\<close> on a
  stored entry returns its value exactly when \<open>now - timestamp \<le> maxAge\<close>; otherwise it
  deletes the entry and returns nothing. In particular, after \<open>set(key, v)\<close> at time
  \<open>t0\<close>, a \<open>get\<close> at \<open>t1\<close> returns \<open>v\<close> when \<open>t1 - t0 \<le> maxAge\<close>, and returns nothing
  and leaves the key absent when \<open>t1 - t0 > maxAge\<close>.
\<close>

theorem get_lazy_expiry:
  assumes pos: "0 < maxAge"
  shows "(Map_get key (cache c) = Some entry \<longrightarrow>
           (now - timestamp entry \<le> maxAge \<longrightarrow>
              CacheService_get c key (Some maxAge) now = (Some (data entry), c)) \<and>
           (\<not> now - timestamp entry \<le> maxAge \<longrightarrow>
              CacheService_get c key (Some maxAge) now
                = (None, c\<lparr>cache := Map_delete key (cache c)\<rparr>) \<and>
              Map_get key (cache (snd (CacheService_get c key (Some maxAge) now))) = None)) \<and>
         (CacheService_set c key v t0 = Inr c1 \<longrightarrow>
           (t1 - t0 \<le> maxAge \<longrightarrow> CacheService_get c1 key (Some maxAge) t1 = (Some v, c1)) \<and>
           (t1 - t0 > maxAge \<longrightarrow>
              fst (CacheService_get c1 key (Some maxAge) t1) = None \<and>
              Map_get key (cache (snd (CacheService_get c1 key (Some maxAge) t1))) = None))"
proof -
  have m: "maxAge_of (Some maxAge) = maxAge"
    using pos by (simp add: maxAge_of_def)
  have general: "Map_get key (cache c') = Some e \<Longrightarrow>
      (now' - timestamp e \<le> maxAge \<longrightarrow>
          CacheService_get c' key (Some maxAge) now' = (Some (data e), c')) \<and>
      (\<not> now' - timestamp e \<le> maxAge \<longrightarrow>
          CacheService_get c' key (Some maxAge) now'
            = (None, c'\<lparr>cache := Map_delete key (cache c')\<rparr>) \<and>
          Map_get key (cache (snd (CacheService_get c' key (Some maxAge) now'))) = None)"
    for c' :: "'a CacheService" and e now'
    using get_hit [where key=key and c=c' and entry=e and now=now' and ttl="Some maxAge"]
      get_miss [where key=key and c=c' and entry=e and now=now' and ttl="Some maxAge"]
    by (auto simp: m Map_get_Map_delete)
  show ?thesis
  proof (intro conjI impI)
    assume s: "CacheService_set c key v t0 = Inr c1"
    note st = set_stores [OF s]
    { assume "t1 - t0 \<le> maxAge"
      with general [OF st, of t1] show "CacheService_get c1 key (Some maxAge) t1 = (Some v, c1)"
        by simp }
    { assume "maxAge < t1 - t0"
      with general [OF st, of t1]
      show "fst (CacheService_get c1 key (Some maxAge) t1) = None"
        and "Map_get key (cache (snd (CacheService_get c1 key (Some maxAge) t1))) = None"
        by (simp_all add: Map_get_Map_delete) }
  qed (use general in \<open>auto simp: Map_get_Map_delete\<close>)
qed

text \<open>The theorem at a cache holding one entry stored at 1000, read with \<open>maxAge = 50\<close>.\<close>

theorem get_lazy_expiry_witness:
  "CacheService_set (CacheService_new :: nat CacheService) ''k'' 7 1000
     = Inr \<lparr>cache = [(''k'', \<lparr>data = 7, timestamp = 1000\<rparr>)], cleanupInterval = True\<rparr> \<and>
   CacheService_get \<lparr>cache = [(''k'', \<lparr>data = 7::nat, timestamp = 1000\<rparr>)], cleanupInterval = True\<rparr>
       ''k'' (Some 50) 1050
     = (Some 7, \<lparr>cache = [(''k'', \<lparr>data = 7, timestamp = 1000\<rparr>)], cleanupInterval = True\<rparr>) \<and>
   CacheService_get \<lparr>cache = [(''k'', \<lparr>data = 7::nat, timestamp = 1000\<rparr>)], cleanupInterval = True\<rparr>
       ''k'' (Some 50) 1051
     = (None, \<lparr>cache = [], cleanupInterval = True\<rparr>)"
proof -
  let ?c1 = "\<lparr>cache = [(''k'', \<lparr>data = 7::nat, timestamp = 1000\<rparr>)], cleanupInterval = True\<rparr>"
  have s: "CacheService_set (CacheService_new :: nat CacheService) ''k'' 7 1000 = Inr ?c1"
    by (simp add: CacheService_set_def CacheService_new_def evictOldest_def MAX_CACHE_SIZE_def)
  have g: "Map_get ''k'' (cache ?c1) = Some \<lparr>data = 7, timestamp = 1000\<rparr>"
    by (simp add: Map_get_def)
  have p: "(0::int) < 50" by simp
  from get_lazy_expiry [OF p, of "''k''" ?c1 "\<lparr>data = 7, timestamp = 1000\<rparr>" 1050] g
  have a: "CacheService_get ?c1 ''k'' (Some 50) 1050 = (Some 7, ?c1)" by simp
  from get_lazy_expiry [OF p, of "''k''" ?c1 "\<lparr>data = 7, timestamp = 1000\<rparr>" 1051] g
  have b: "CacheService_get ?c1 ''k'' (Some 50) 1051 = (None, \<lparr>cache = [], cleanupInterval = True\<rparr>)"
    by (simp add: Map_delete_def)
  from s a b show ?thesis by simp
qed


text \<open>
  Claim C10 (a zero \<open>maxAge\<close> is not an immediate-expiry bound). \<open>get(key, 0)\<close> behaves as
  \<open>get(key)\<close> with the argument omitted and as \<open>get(key, defaultTTL)\<close>, the default being
  300000 ms (5 minutes); so \<open>get(key, 0)\<close> right after \<open>set(key, v)\<close>, and up to five
  minutes later, returns \<open>v\<close>.
\<close>

theorem get_zero_ttl_is_default:
  "defaultTTL = 300000 \<and>
   CacheService_get c key (Some 0) now = CacheService_get c key None now \<and>
   CacheService_get c key (Some 0) now = CacheService_get c key (Some defaultTTL) now \<and>
   (CacheService_set c key v t0 = Inr c1 \<longrightarrow> t1 - t0 \<le> 300000 \<longrightarrow>
      CacheService_get c1 key (Some 0) t1 = (Some v, c1))"
proof -
  have d: "defaultTTL = 300000" by (simp add: defaultTTL_def)
  have m: "maxAge_of (Some 0) = defaultTTL" "maxAge_of None = defaultTTL"
    "maxAge_of (Some defaultTTL) = defaultTTL"
    by (simp_all add: maxAge_of_def)
  have e: "CacheService_get c key (Some 0) now = CacheService_get c key None now"
    "CacheService_get c key (Some 0) now = CacheService_get c key (Some defaultTTL) now"
    unfolding CacheService_get_def m by simp_all
  have "CacheService_get c1 key (Some 0) t1 = (Some v, c1)"
    if s: "CacheService_set c key v t0 = Inr c1" and t: "t1 - t0 \<le> 300000"
    using get_hit [OF set_stores [OF s], where now=t1 and ttl="Some 0"] t
    by (simp add: m d)
  with d e show ?thesis by blast
qed

text \<open>The theorem at a fresh cache: \<open>set\<close> at 1000, \<open>get(key, 0)\<close> at 1000.\<close>

theorem get_zero_ttl_is_default_witness:
  "CacheService_set (CacheService_new :: nat CacheService) ''k'' 7 1000
     = Inr \<lparr>cache = [(''k'', \<lparr>data = 7, timestamp = 1000\<rparr>)], cleanupInterval = True\<rparr> \<and>
   CacheService_get \<lparr>cache = [(''k'', \<lparr>data = 7::nat, timestamp = 1000\<rparr>)], cleanupInterval = True\<rparr>
       ''k'' (Some 0) 1000
     = (Some 7, \<lparr>cache = [(''k'', \<lparr>data = 7, timestamp = 1000\<rparr>)], cleanupInterval = True\<rparr>)"
proof -
  let ?c1 = "\<lparr>cache = [(''k'', \<lparr>data = 7::nat, timestamp = 1000\<rparr>)], cleanupInterval = True\<rparr>"
  have s: "CacheService_set (CacheService_new :: nat CacheService) ''k'' 7 1000 = Inr ?c1"
    by (simp add: CacheService_set_def CacheService_new_def evictOldest_def MAX_CACHE_SIZE_def)
  from get_zero_ttl_is_default
    [where c="CacheService_new :: nat CacheService" and key="''k''" and v=7 and ?t0.0=1000
       and ?c1.0="?c1" and ?t1.0=1000]
    s
  show ?thesis by simp
qed

text \<open>
  Claim C8, as amended. \<open>destroy()\<close> clears all entries and disarms the periodic sweep: a
  timer tick changes nothing afterwards. The cache is not made unusable: \<open>destroy\<close> sets
  no flag that \<open>set\<close> or \<open>get\<close> read, so a \<open>set\<close> after \<open>destroy\<close> stores its entry, and a
  \<open>get\<close> within the maximal age serves it.
\<close>

theorem destroy_leaves_cache_usable:
  "cache (CacheService_destroy c) = [] \<and>
   \<not> cleanupInterval (CacheService_destroy c) \<and>
   tick (CacheService_destroy c) now = CacheService_destroy c \<and>
   CacheService_set (CacheService_destroy c) key v t0
     = Inr ((CacheService_destroy c)\<lparr>cache := [(key, \<lparr>data = v, timestamp = t0\<rparr>)]\<rparr>) \<and>
   (t1 - t0 \<le> maxAge_of ttl \<longrightarrow>
      fst (CacheService_get
            ((CacheService_destroy c)\<lparr>cache := [(key, \<lparr>data = v, timestamp = t0\<rparr>)]\<rparr>)
            key ttl t1) = Some v)"
  by (simp add: CacheService_destroy_def tick_def CacheService_set_def evictOldest_def
      MAX_CACHE_SIZE_def CacheService_get_def Map_get_def Let_def)

text \<open>The theorem at a destroyed fresh cache.\<close>

theorem destroy_leaves_cache_usable_witness:
  "fst (CacheService_get
         ((CacheService_destroy (CacheService_new :: nat CacheService))
            \<lparr>cache := [(''k'', \<lparr>data = 7, timestamp = 1000\<rparr>)]\<rparr>)
         ''k'' (Some 50) 1050) = Some 7"
  using destroy_leaves_cache_usable
    [where c="CacheService_new :: nat CacheService" and key="''k''" and v=7 and ?t0.0=1000
       and ?t1.0=1050 and ttl="Some 50"]
  by (simp add: maxAge_of_def)

text \<open>
  Claim C8 as stated fails: after \<open>destroy()\<close> on a fresh cache, \<open>set(''k'', 7)\<close> stores the
  entry and \<open>get(''k'')\<close> serves it.
\<close>

theorem destroy_terminal_counterexample:
  "CacheService_set (CacheService_destroy (CacheService_new :: nat CacheService)) ''k'' 7 1000
     = Inr \<lparr>cache = [(''k'', \<lparr>data = 7, timestamp = 1000\<rparr>)], cleanupInterval = False\<rparr> \<and>
   CacheService_get \<lparr>cache = [(''k'', \<lparr>data = 7::nat, timestamp = 1000\<rparr>)], cleanupInterval = False\<rparr>
       ''k'' None 1001
     = (Some 7, \<lparr>cache = [(''k'', \<lparr>data = 7, timestamp = 1000\<rparr>)], cleanupInterval = False\<rparr>)"
  by (simp add: CacheService_destroy_def CacheService_new_def CacheService_set_def evictOldest_def
      MAX_CACHE_SIZE_def CacheService_get_def Map_get_def Let_def maxAge_of_def defaultTTL_def)

subsection \<open>Capacity\<close>

text \<open>
  Claim C4 (capacity invariant). In every state the cache can reach, the map holds at
  most \<open>MAX_CACHE_SIZE\<close> entries. \<open>set\<close> never throws there, and it stays under
  the bound on the way: the map it inserts into, after the eviction, has fewer than
  \<open>MAX_CACHE_SIZE\<close> entries. When the map is full and the key is new, \<open>set\<close> removes
  exactly one entry, one whose timestamp is the least, and appends the new entry, which
  leaves \<open>MAX_CACHE_SIZE\<close> entries. Hence \<open>MAX_CACHE_SIZE + 1\<close> sets with distinct keys
  on a fresh cache leave \<open>MAX_CACHE_SIZE\<close> entries, all but one with a least timestamp of
  the first \<open>MAX_CACHE_SIZE\<close>; when the clock readings do not decrease, the entry
  evicted is the first one stored.
\<close>

theorem cache_capacity:
  assumes r: "reachable c"
  shows "length (cache c) \<le> MAX_CACHE_SIZE \<and>
    (\<exists>m. evictOldest (cache c) = Inr m \<and> length m < MAX_CACHE_SIZE \<and>
         CacheService_set c key d now
           = Inr (c\<lparr>cache := Map_set key \<lparr>data = d, timestamp = now\<rparr> m\<rparr>) \<and>
         length (Map_set key \<lparr>data = d, timestamp = now\<rparr> m) \<le> MAX_CACHE_SIZE) \<and>
    (length (cache c) = MAX_CACHE_SIZE \<and> key \<notin> fst ` set (cache c) \<longrightarrow>
       (\<exists>oldest \<in> set (cache c).
          (\<forall>p \<in> set (cache c). timestamp (snd oldest) \<le> timestamp (snd p)) \<and>
          set (Map_delete (fst oldest) (cache c)) = set (cache c) - {oldest} \<and>
          CacheService_set c key d now
            = Inr (c\<lparr>cache := Map_delete (fst oldest) (cache c)
                     @ [(key, \<lparr>data = d, timestamp = now\<rparr>)]\<rparr>) \<and>
          length (Map_delete (fst oldest) (cache c) @ [(key, \<lparr>data = d, timestamp = now\<rparr>)])
            = MAX_CACHE_SIZE)) \<and>
    (distinct (map fst (xs @ [x])) \<and> length xs = MAX_CACHE_SIZE \<longrightarrow>
       (\<exists>oldest \<in> set (map entry_of xs).
          (\<forall>p \<in> set (map entry_of xs). timestamp (snd oldest) \<le> timestamp (snd p)) \<and>
          set (Map_delete (fst oldest) (map entry_of xs)) = set (map entry_of xs) - {oldest} \<and>
          set_all CacheService_new (xs @ [x])
            = Inr \<lparr>cache = Map_delete (fst oldest) (map entry_of xs) @ [entry_of x],
                   cleanupInterval = True\<rparr> \<and>
          length (Map_delete (fst oldest) (map entry_of xs) @ [entry_of x]) = MAX_CACHE_SIZE) \<and>
       (sorted (map (\<lambda>y. snd (snd y)) xs) \<longrightarrow>
          set_all CacheService_new (xs @ [x])
            = Inr \<lparr>cache = map entry_of (tl xs @ [x]), cleanupInterval = True\<rparr>))"
proof -
  from r have w: "wf_cache c" by (rule reachable_wf)
  then have a: "length (cache c) \<le> MAX_CACHE_SIZE" by (simp add: wf_cache_def)
  from w obtain m where m: "evictOldest (cache c) = Inr m" "length m < MAX_CACHE_SIZE"
    by (rule evictOldest_makes_room)
  have a': "\<exists>m. evictOldest (cache c) = Inr m \<and> length m < MAX_CACHE_SIZE \<and>
         CacheService_set c key d now
           = Inr (c\<lparr>cache := Map_set key \<lparr>data = d, timestamp = now\<rparr> m\<rparr>) \<and>
         length (Map_set key \<lparr>data = d, timestamp = now\<rparr> m) \<le> MAX_CACHE_SIZE"
    using m by (intro exI [of _ m]) (simp add: CacheService_set_def length_Map_set)
  have b: "\<exists>oldest \<in> set (cache c).
          (\<forall>p \<in> set (cache c). timestamp (snd oldest) \<le> timestamp (snd p)) \<and>
          set (Map_delete (fst oldest) (cache c)) = set (cache c) - {oldest} \<and>
          CacheService_set c key d now
            = Inr (c\<lparr>cache := Map_delete (fst oldest) (cache c)
                     @ [(key, \<lparr>data = d, timestamp = now\<rparr>)]\<rparr>) \<and>
          length (Map_delete (fst oldest) (cache c) @ [(key, \<lparr>data = d, timestamp = now\<rparr>)])
            = MAX_CACHE_SIZE"
    if "length (cache c) = MAX_CACHE_SIZE" "key \<notin> fst ` set (cache c)"
  proof -
    from w that obtain oldest where "oldest \<in> set (cache c)"
      "\<forall>p \<in> set (cache c). timestamp (snd oldest) \<le> timestamp (snd p)"
      "set (Map_delete (fst oldest) (cache c)) = set (cache c) - {oldest}"
      "Suc (length (Map_delete (fst oldest) (cache c))) = MAX_CACHE_SIZE"
      "CacheService_set c key d now
         = Inr (c\<lparr>cache := Map_delete (fst oldest) (cache c)
                  @ [(key, \<lparr>data = d, timestamp = now\<rparr>)]\<rparr>)"
      by (rule set_new_key_at_capacity)
    then show ?thesis by (intro bexI [of _ oldest]) simp_all
  qed
  have c1: "\<exists>oldest \<in> set (map entry_of xs).
          (\<forall>p \<in> set (map entry_of xs). timestamp (snd oldest) \<le> timestamp (snd p)) \<and>
          set (Map_delete (fst oldest) (map entry_of xs)) = set (map entry_of xs) - {oldest} \<and>
          set_all CacheService_new (xs @ [x])
            = Inr \<lparr>cache = Map_delete (fst oldest) (map entry_of xs) @ [entry_of x],
                   cleanupInterval = True\<rparr> \<and>
          length (Map_delete (fst oldest) (map entry_of xs) @ [entry_of x]) = MAX_CACHE_SIZE"
    if "distinct (map fst (xs @ [x]))" "length xs = MAX_CACHE_SIZE"
  proof -
    from that obtain oldest where "oldest \<in> set (map entry_of xs)"
      "\<forall>p \<in> set (map entry_of xs). timestamp (snd oldest) \<le> timestamp (snd p)"
      "set_all CacheService_new (xs @ [x])
         = Inr \<lparr>cache = Map_delete (fst oldest) (map entry_of xs) @ [entry_of x],
                cleanupInterval = True\<rparr>"
      "length (Map_delete (fst oldest) (map entry_of xs) @ [entry_of x]) = MAX_CACHE_SIZE"
      "set (Map_delete (fst oldest) (map entry_of xs)) = set (map entry_of xs) - {oldest}"
      by (rule set_all_one_more)
    then show ?thesis by (intro bexI [of _ oldest]) simp_all
  qed
  have c2: "set_all CacheService_new (xs @ [x])
            = Inr \<lparr>cache = map entry_of (tl xs @ [x]), cleanupInterval = True\<rparr>"
    if "distinct (map fst (xs @ [x]))" "length xs = MAX_CACHE_SIZE"
      "sorted (map (\<lambda>y. snd (snd y)) xs)"
    using that by (rule set_all_one_more_monotone)
  from a a' b c1 c2 show ?thesis by blast
qed

text \<open>
  The theorem at 101 sets with the keys \<open>replicate i CHR ''k''\<close> at the clock readings
  \<open>i\<close>: the state after the first 100 is reachable and full, the 101st key is new, and
  the run ends with the last 100 entries.
\<close>

theorem cache_capacity_witness:
  "reachable \<lparr>cache = map entry_of (map (\<lambda>i. (replicate i CHR ''k'', i, int i)) [0..<100]),
              cleanupInterval = True\<rparr> \<and>
   length (map entry_of (map (\<lambda>i. (replicate i CHR ''k'', i, int i)) [0..<100])) = MAX_CACHE_SIZE \<and>
   replicate 100 CHR ''k''
     \<notin> fst ` set (map entry_of (map (\<lambda>i. (replicate i CHR ''k'', i, int i)) [0..<100])) \<and>
   set_all CacheService_new
       (map (\<lambda>i. (replicate i CHR ''k'', i, int i)) [0..<100] @ [(replicate 100 CHR ''k'', 100, 100)])
     = Inr \<lparr>cache = map entry_of (map (\<lambda>i. (replicate i CHR ''k'', i, int i)) [1..<100]
                       @ [(replicate 100 CHR ''k'', 100, 100)]),
            cleanupInterval = True\<rparr>"
proof -
  let ?kv = "\<lambda>i::nat. (replicate i CHR ''k'', i, int i)"
  let ?xs = "map ?kv [0..<100]"
  let ?x = "(replicate 100 CHR ''k'', 100::nat, 100::int)"
  let ?c = "\<lparr>cache = map entry_of ?xs, cleanupInterval = True\<rparr>"
  have u: "[0..<101] = [0..<100] @ [100::nat]"
    using upt_Suc_append [of 0 100] by (simp del: upt_rec_numeral)
  have keys: "map fst (?xs @ [?x]) = map (\<lambda>i. replicate i CHR ''k'') [0..<101]"
    unfolding u by (simp add: comp_def del: upt_rec_numeral)
  have "inj (\<lambda>i::nat. replicate i CHR ''k'')"
    by (rule injI) (metis length_replicate)
  then have d: "distinct (map fst (?xs @ [?x]))"
    unfolding keys by (simp add: distinct_map inj_on_def del: upt_Suc upt_rec_numeral)
  have l: "length ?xs = MAX_CACHE_SIZE" by (simp add: MAX_CACHE_SIZE_def)
  have m: "sorted (map (\<lambda>y. snd (snd y)) ?xs)"
    by (simp add: comp_def sorted_iff_nth_mono del: upt_Suc upt_rec_numeral)
  have f: "set_all CacheService_new ?xs = Inr ?c"
    using d l by (intro set_all_fills) auto
  have r: "reachable ?c"
    using reachable.fresh f by (rule set_all_reachable)
  have new: "replicate 100 CHR ''k'' \<notin> fst ` set (map entry_of ?xs)"
    using d by (simp add: fst_entry_of image_image del: upt_Suc upt_rec_numeral)
  have t: "tl ?xs = map ?kv [1..<100]"
    by (simp add: map_tl [symmetric] del: upt_Suc upt_rec_numeral)
  from cache_capacity [OF r, where xs="?xs" and x="?x"] d l m
  have "set_all CacheService_new (?xs @ [?x])
          = Inr \<lparr>cache = map entry_of (tl ?xs @ [?x]), cleanupInterval = True\<rparr>"
    by blast
  then have final: "set_all CacheService_new (?xs @ [?x])
          = Inr \<lparr>cache = map entry_of (map ?kv [1..<100] @ [?x]), cleanupInterval = True\<rparr>"
    by (simp only: t)
  have l': "length (map entry_of ?xs) = MAX_CACHE_SIZE"
    using l by (simp only: length_map)
  from r l' new final show ?thesis by blast
qed

section \<open>Properties of the fetch aggregator\<close>

subsection \<open>The loop on a provider that serves given pages\<close>


lemma fetch_pages_stop:
  "\<not> (has_next st \<and> pageCount st < MAX_PAGES) \<Longrightarrow> fetch_pages p st = (None, st)"
  by (subst fetch_pages.simps) auto

lemma fetch_pages_answered:
  assumes "has_next st" "pageCount st < MAX_PAGES"
    and "fst (p (provider_state st) (cursor st)) = Inr page"
  shows "fetch_pages p st
           = fetch_pages p (absorb st page (snd (p (provider_state st) (cursor st))))"
proof -
  obtain r s' where eq: "p (provider_state st) (cursor st) = (r, s')"
    by (cases "p (provider_state st) (cursor st)")
  with assms(3) have "r = Inr page" by simp
  with eq assms(1,2) show ?thesis
    by (subst fetch_pages.simps) (simp add: absorb_def)
qed

lemma fetch_pages_thrown:
  assumes "has_next st" "pageCount st < MAX_PAGES"
    and "fst (p (provider_state st) (cursor st)) = Inl err"
  shows "fetch_pages p st
           = (Some err, st\<lparr>requests := requests st @ [cursor st],
                          provider_state := snd (p (provider_state st) (cursor st))\<rparr>)"
proof -
  obtain r s' where eq: "p (provider_state st) (cursor st) = (r, s')"
    by (cases "p (provider_state st) (cursor st)")
  with assms(3) have "r = Inl err" by simp
  with eq assms(1,2) show ?thesis
    by (subst fetch_pages.simps) simp
qed

lemma fetch_pages_serves:
  assumes "serves p (provider_state st) (cursor st) pages"
    and "pages \<noteq> [] \<longrightarrow> has_next st"
    and "pageCount st + length pages \<le> MAX_PAGES"
  shows "fetch_pages p st = fetch_pages p (after_pages p st pages)"
  using assms
proof (induction pages arbitrary: st)
  case Nil
  then show ?case by simp
next
  case (Cons page rest)
  let ?s' = "snd (p (provider_state st) (cursor st))"
  let ?st1 = "absorb st page ?s'"
  from Cons.prems have a: "fst (p (provider_state st) (cursor st)) = Inr page"
    and h: "has_next st" and c: "pageCount st < MAX_PAGES"
    by auto
  then have "fetch_pages p st = fetch_pages p ?st1" by (intro fetch_pages_answered)
  also have "\<dots> = fetch_pages p (after_pages p ?st1 rest)"
  proof (rule Cons.IH)
    show "serves p (provider_state ?st1) (cursor ?st1) rest"
      using Cons.prems(1) by (simp add: absorb_def)
    show "rest \<noteq> [] \<longrightarrow> has_next ?st1"
      using Cons.prems(1) by (simp add: absorb_def)
    show "pageCount ?st1 + length rest \<le> MAX_PAGES"
      using Cons.prems(3) by (simp add: absorb_def)
  qed
  finally show ?case by simp
qed

lemma allRepos_after_pages:
  "allRepos (after_pages p st pages) = allRepos st @ concat (map nodes pages)"
  by (induction pages arbitrary: st) (simp_all add: absorb_def)

lemma pageCount_after_pages:
  "pageCount (after_pages p st pages) = pageCount st + length pages"
  by (induction pages arbitrary: st) (simp_all add: absorb_def)

lemma has_next_after_pages:
  "pages \<noteq> [] \<Longrightarrow> has_next (after_pages p st pages) = hasNextPage (pageInfo (last pages))"
  by (induction pages arbitrary: st) (auto simp: absorb_def)

lemma requests_after_pages:
  "requests (after_pages p st pages)
     = requests st @ butlast (cursor st # map (\<lambda>page. endCursor (pageInfo page)) pages)"
  by (induction pages arbitrary: st) (simp_all add: absorb_def)

lemma requests_after_pages_start:
  "pages \<noteq> [] \<Longrightarrow> requests (after_pages p (fetch_start s) pages) = cursors_for pages"
  by (simp add: requests_after_pages fetch_start_def cursors_for_def map_butlast)

lemma length_cursors_for: "pages \<noteq> [] \<Longrightarrow> length (cursors_for pages) = length pages"
  by (simp add: cursors_for_def)

lemma requests_bounded:
  "length (requests st) = pageCount st \<Longrightarrow> pageCount st \<le> MAX_PAGES
   \<Longrightarrow> length (requests (snd (fetch_pages p st))) \<le> MAX_PAGES"
proof (induction p st rule: fetch_pages.induct)
  case (1 p st)
  show ?case
  proof (cases "has_next st \<and> pageCount st < MAX_PAGES")
    case False
    then show ?thesis using "1.prems" by (simp add: fetch_pages_stop)
  next
    case True
    show ?thesis
    proof (cases "fst (p (provider_state st) (cursor st))")
      case (Inl err)
      with True "1.prems" show ?thesis by (simp add: fetch_pages_thrown)
    next
      case (Inr page)
      let ?s' = "snd (p (provider_state st) (cursor st))"
      have eq: "p (provider_state st) (cursor st) = (Inr page, ?s')"
        using Inr by (metis prod.collapse)
      have "length (requests (snd (fetch_pages p (absorb st page ?s')))) \<le> MAX_PAGES"
        unfolding absorb_def
        using True "1.prems" by (intro "1.IH" [OF True eq [symmetric] refl]) auto
      with True Inr show ?thesis by (simp add: fetch_pages_answered)
    qed
  qed
qed


lemma fetch_complete:
  assumes sv: "serves p s None pages" and ne: "pages \<noteq> []"
    and last: "\<not> hasNextPage (pageInfo (last pages))"
    and le: "length pages \<le> MAX_PAGES"
  shows "fetchRepositories p s =
     \<lparr>outcome = Inr (map toRepository (concat (map nodes pages))),
      console = [Log_fetched (length (concat (map nodes pages))) (length pages)],
      requests_issued = cursors_for pages,
      provider_after = provider_state (after_pages p (fetch_start s) pages)\<rparr>"
proof -
  let ?st = "after_pages p (fetch_start s) pages"
  have "fetch_pages p (fetch_start s) = fetch_pages p ?st"
    using sv le by (intro fetch_pages_serves) (simp_all add: fetch_start_def)
  moreover have h: "\<not> has_next ?st"
    using ne last by (simp add: has_next_after_pages)
  then have "fetch_pages p ?st = (None, ?st)" by (simp add: fetch_pages_stop)
  ultimately have "fetch_pages p (fetch_start s) = (None, ?st)" by simp
  moreover have "allRepos ?st = concat (map nodes pages)"
    by (simp add: allRepos_after_pages fetch_start_def)
  moreover have "pageCount ?st = length pages"
    by (simp add: pageCount_after_pages fetch_start_def)
  moreover have "requests ?st = cursors_for pages"
    using ne by (rule requests_after_pages_start)
  ultimately show ?thesis using h by (simp add: fetchRepositories_def)
qed

lemma fetch_truncated:
  assumes sv: "serves p s None pages" and len: "length pages = MAX_PAGES"
    and last: "hasNextPage (pageInfo (last pages))"
  shows "fetchRepositories p s =
     \<lparr>outcome = Inr (map toRepository (concat (map nodes pages))),
      console = [Warn_max_pages MAX_PAGES,
                 Log_fetched (length (concat (map nodes pages))) MAX_PAGES],
      requests_issued = cursors_for pages,
      provider_after = provider_state (after_pages p (fetch_start s) pages)\<rparr>"
proof -
  let ?st = "after_pages p (fetch_start s) pages"
  from len have ne: "pages \<noteq> []" by (auto simp: MAX_PAGES_def)
  have "fetch_pages p (fetch_start s) = fetch_pages p ?st"
    using sv len by (intro fetch_pages_serves) (simp_all add: fetch_start_def)
  moreover have c: "pageCount ?st = MAX_PAGES"
    using len by (simp add: pageCount_after_pages fetch_start_def)
  then have "fetch_pages p ?st = (None, ?st)" by (simp add: fetch_pages_stop)
  ultimately have "fetch_pages p (fetch_start s) = (None, ?st)" by simp
  moreover have "allRepos ?st = concat (map nodes pages)"
    by (simp add: allRepos_after_pages fetch_start_def)
  moreover have "has_next ?st"
    using ne last by (simp add: has_next_after_pages)
  moreover have "requests ?st = cursors_for pages"
    using ne by (rule requests_after_pages_start)
  ultimately show ?thesis using c by (simp add: fetchRepositories_def)
qed

lemma fetch_requests_bounded:
  "length (requests_issued (fetchRepositories p s)) \<le> MAX_PAGES"
proof -
  have "length (requests (snd (fetch_pages p (fetch_start s)))) \<le> MAX_PAGES"
    by (rule requests_bounded) (simp_all add: fetch_start_def)
  then show ?thesis
    by (cases "fetch_pages p (fetch_start s)")
      (auto simp: fetchRepositories_def split: option.splits)
qed

lemma serves_scripted:
  "\<forall>page \<in> set (butlast pages). hasNextPage (pageInfo page)
   \<Longrightarrow> serves scripted (map Inr pages @ rest) cur pages"
  by (induction pages arbitrary: cur) (auto split: if_splits)

lemma serves_always:
  "hasNextPage (pageInfo page) \<Longrightarrow> serves (always page) s cur (replicate n page)"
  by (induction n arbitrary: cur) (simp_all add: always_def)


lemma sample_pages_chain:
  "k \<le> n \<Longrightarrow> \<forall>page \<in> set (butlast (map (sample_page n) [0..<k])). hasNextPage (pageInfo page)"
proof -
  assume "k \<le> n"
  have "butlast (map (sample_page n) [0..<k]) = map (sample_page n) [0..<k - 1]"
    by (simp add: butlast_conv_take take_map)
  with \<open>k \<le> n\<close> show ?thesis by (auto simp: sample_page_def)
qed

lemma nodes_sample_pages:
  "concat (map nodes (map (sample_page n) [0..<k])) = map sample_repo [0..<k]"
  by (induction k) (simp_all add: sample_page_def)

lemma concat_replicate_single: "concat (replicate n [x]) = replicate n x"
  by (induction n) simp_all

lemma fetch_truncated_requests:
  assumes "serves p s None pages" "length pages = MAX_PAGES" "hasNextPage (pageInfo (last pages))"
  shows "length (requests_issued (fetchRepositories p s)) = MAX_PAGES"
proof -
  from assms(2) have "pages \<noteq> []" by (auto simp: MAX_PAGES_def)
  then have "length (cursors_for pages) = MAX_PAGES"
    using assms(2) by (simp add: length_cursors_for)
  then show ?thesis by (simp add: fetch_truncated [OF assms])
qed

lemma fetch_endless:
  assumes h: "hasNextPage (pageInfo page)"
  shows "fetchRepositories (always page) () =
     \<lparr>outcome = Inr (map toRepository (concat (replicate MAX_PAGES (nodes page)))),
      console = [Warn_max_pages MAX_PAGES,
                 Log_fetched (length (concat (replicate MAX_PAGES (nodes page)))) MAX_PAGES],
      requests_issued = cursors_for (replicate MAX_PAGES page),
      provider_after = ()\<rparr>"
proof -
  have "serves (always page) () None (replicate MAX_PAGES page)"
    using h by (rule serves_always)
  moreover have "length (replicate MAX_PAGES page) = MAX_PAGES" by simp
  moreover have "hasNextPage (pageInfo (last (replicate MAX_PAGES page)))"
    using h by (simp add: MAX_PAGES_def)
  ultimately show ?thesis by (simp add: fetch_truncated)
qed

subsection \<open>Completeness up to the page ceiling\<close>

text \<open>
  Claim C2, as amended. When the provider serves \<open>N\<close> pages along the cursor chain from
  the start, the last one signalling no further page, and \<open>N \<le> MAX_PAGES\<close>, then
  \<open>fetchRepositories\<close> returns the records of all the pages, converted one by one to the
  public record, in the order of the pages and of the records in each page; it issues
  exactly \<open>N\<close> requests, one after the other, the first with no cursor and each next one
  with the end cursor of the page before; and it logs no truncation warning.
\<close>

theorem fetch_all_pages:
  assumes "serves p s None pages" and "pages \<noteq> []"
    and "\<not> hasNextPage (pageInfo (last pages))"
    and "length pages \<le> MAX_PAGES"
  shows "outcome (fetchRepositories p s) = Inr (map toRepository (concat (map nodes pages))) \<and>
         requests_issued (fetchRepositories p s) = cursors_for pages \<and>
         length (requests_issued (fetchRepositories p s)) = length pages \<and>
         console (fetchRepositories p s)
           = [Log_fetched (length (concat (map nodes pages))) (length pages)]"
  using assms by (simp add: fetch_complete length_cursors_for)

text \<open>The theorem at a scripted provider of two pages, of two records and of one.\<close>

theorem fetch_all_pages_witness:
  "outcome (fetchRepositories scripted
      [Inr \<lparr>pageInfo = \<lparr>hasNextPage = True, endCursor = Some ''c1''\<rparr>,
            nodes = [sample_repo 0, sample_repo 1]\<rparr>,
       Inr \<lparr>pageInfo = \<lparr>hasNextPage = False, endCursor = None\<rparr>,
            nodes = [sample_repo 2]\<rparr>])
     = Inr [toRepository (sample_repo 0), toRepository (sample_repo 1),
            toRepository (sample_repo 2)] \<and>
   requests_issued (fetchRepositories scripted
      [Inr \<lparr>pageInfo = \<lparr>hasNextPage = True, endCursor = Some ''c1''\<rparr>,
            nodes = [sample_repo 0, sample_repo 1]\<rparr>,
       Inr \<lparr>pageInfo = \<lparr>hasNextPage = False, endCursor = None\<rparr>,
            nodes = [sample_repo 2]\<rparr>])
     = [None, Some ''c1'']"
proof -
  let ?a = "\<lparr>pageInfo = \<lparr>hasNextPage = True, endCursor = Some ''c1''\<rparr>,
            nodes = [sample_repo 0, sample_repo 1]\<rparr>"
  let ?b = "\<lparr>pageInfo = \<lparr>hasNextPage = False, endCursor = None\<rparr>,
            nodes = [sample_repo 2]\<rparr>"
  have "serves scripted [Inr ?a, Inr ?b] None [?a, ?b]" by simp
  moreover have "[?a, ?b] \<noteq> []" by simp
  moreover have "\<not> hasNextPage (pageInfo (last [?a, ?b]))" by simp
  moreover have "length [?a, ?b] \<le> MAX_PAGES" by (simp add: MAX_PAGES_def)
  ultimately show ?thesis
    using fetch_all_pages [of scripted "[Inr ?a, Inr ?b]" "[?a, ?b]"]
    by (simp add: cursors_for_def)
qed

text \<open>
  Claim C2 as stated fails for \<open>N > MAX_PAGES\<close>: a provider serves 101 pages of one
  record each, the last one signalling no further page; \<open>fetchRepositories\<close> issues 100
  requests and returns the records of the first 100 pages only.
\<close>

theorem fetch_all_pages_counterexample:
  "serves scripted (map Inr (map (sample_page 101) [0..<101])) None
      (map (sample_page 101) [0..<101]) \<and>
   \<not> hasNextPage (pageInfo (last (map (sample_page 101) [0..<101]))) \<and>
   length (map (sample_page 101) [0..<101]) = 101 \<and>
   outcome (fetchRepositories scripted (map Inr (map (sample_page 101) [0..<101])))
     = Inr (map toRepository (map sample_repo [0..<100])) \<and>
   outcome (fetchRepositories scripted (map Inr (map (sample_page 101) [0..<101])))
     \<noteq> Inr (map toRepository (concat (map nodes (map (sample_page 101) [0..<101])))) \<and>
   length (requests_issued
             (fetchRepositories scripted (map Inr (map (sample_page 101) [0..<101])))) = 100"
proof -
  let ?P = "map (sample_page 101) [0..<101]"
  let ?Q = "map (sample_page 101) [0..<100]"
  have u: "[0..<101] = [0..<100] @ [100::nat]"
    using upt_Suc_append [of 0 100] by (simp del: upt_rec_numeral)
  have PQ: "map Inr ?P = map Inr ?Q @ [Inr (sample_page 101 100)]"
    unfolding u by simp
  have s1: "serves scripted (map Inr ?P) None ?P"
    using serves_scripted [of ?P "[]" None] sample_pages_chain [of 101 101] by simp
  have l1: "\<not> hasNextPage (pageInfo (last ?P))"
    unfolding u by (simp add: sample_page_def)
  have s2: "serves scripted (map Inr ?P) None ?Q"
    unfolding PQ by (rule serves_scripted) (rule sample_pages_chain, simp)
  have u2: "[0..<100] = [0..<99] @ [99::nat]"
    using upt_Suc_append [of 0 99] by (simp del: upt_rec_numeral)
  have l2: "hasNextPage (pageInfo (last ?Q))"
    unfolding u2 by (simp add: sample_page_def)
  have n2: "length ?Q = MAX_PAGES" by (simp add: MAX_PAGES_def del: upt_rec_numeral)
  note t = fetch_truncated [OF s2 n2 l2]
  have o: "outcome (fetchRepositories scripted (map Inr ?P))
      = Inr (map toRepository (map sample_repo [0..<100]))"
    by (simp only: t nodes_sample_pages fetch_result.select_convs)
  have "length (map toRepository (map sample_repo [0..<100]))
      \<noteq> length (map toRepository (concat (map nodes ?P)))"
    by (simp only: nodes_sample_pages length_map length_upt)
  then have d: "map toRepository (map sample_repo [0..<100])
      \<noteq> map toRepository (concat (map nodes ?P))"
    by metis
  have r: "length (requests_issued (fetchRepositories scripted (map Inr ?P))) = 100"
  proof -
    from n2 have "?Q \<noteq> []" by (auto simp: MAX_PAGES_def)
    then have "length (cursors_for ?Q) = length ?Q" by (rule length_cursors_for)
    with n2 have "length (cursors_for ?Q) = 100" by (simp only: MAX_PAGES_def)
    then show ?thesis by (simp only: t fetch_result.select_convs)
  qed
  have len: "length ?P = 101" by (simp del: upt_rec_numeral)
  from s1 l1 len o d r show ?thesis by (simp only: sum.inject) blast
qed

subsection \<open>The page ceiling\<close>

text \<open>
  Claim C3, as amended. Whatever the provider does, \<open>fetchRepositories\<close> issues at most
  \<open>MAX_PAGES = 100\<close> requests (the loop is a total function: its termination is proved
  with the definition of \<open>fetch_pages\<close>). When the provider serves \<open>MAX_PAGES\<close> pages
  and the last of them still signals a next page, the function does not fail: it logs
  the truncation warning on the console and returns the converted records of these
  pages, after exactly \<open>MAX_PAGES\<close> requests. The value returned carries no mark of the
  truncation: a complete fetch of \<open>MAX_PAGES\<close> pages holding the same records returns
  the same value. In particular, on a provider that gives the same page for ever,
  always signalling a next page, the function returns \<open>MAX_PAGES\<close> copies of its records
  after \<open>MAX_PAGES\<close> requests and a warning.
\<close>

theorem fetch_page_ceiling:
  "MAX_PAGES = 100 \<and>
   length (requests_issued (fetchRepositories p s)) \<le> MAX_PAGES \<and>
   (serves p s None pages \<and> length pages = MAX_PAGES \<and> hasNextPage (pageInfo (last pages))
      \<longrightarrow>
      outcome (fetchRepositories p s) = Inr (map toRepository (concat (map nodes pages))) \<and>
      console (fetchRepositories p s)
        = [Warn_max_pages MAX_PAGES,
           Log_fetched (length (concat (map nodes pages))) MAX_PAGES] \<and>
      requests_issued (fetchRepositories p s) = cursors_for pages \<and>
      length (requests_issued (fetchRepositories p s)) = MAX_PAGES \<and>
      (serves p' s' None pages' \<and> length pages' = MAX_PAGES \<and>
       \<not> hasNextPage (pageInfo (last pages')) \<and> map nodes pages' = map nodes pages
         \<longrightarrow> outcome (fetchRepositories p' s') = outcome (fetchRepositories p s))) \<and>
   (hasNextPage (pageInfo page) \<longrightarrow>
      outcome (fetchRepositories (always page) ())
        = Inr (map toRepository (concat (replicate MAX_PAGES (nodes page)))) \<and>
      Warn_max_pages MAX_PAGES \<in> set (console (fetchRepositories (always page) ())) \<and>
      length (requests_issued (fetchRepositories (always page) ())) = MAX_PAGES)"
proof -
  have trunc: "outcome (fetchRepositories p s) = Inr (map toRepository (concat (map nodes pages))) \<and>
      console (fetchRepositories p s)
        = [Warn_max_pages MAX_PAGES, Log_fetched (length (concat (map nodes pages))) MAX_PAGES] \<and>
      requests_issued (fetchRepositories p s) = cursors_for pages \<and>
      length (requests_issued (fetchRepositories p s)) = MAX_PAGES"
    if "serves p s None pages" "length pages = MAX_PAGES" "hasNextPage (pageInfo (last pages))"
    using fetch_truncated_requests [OF that] by (simp add: fetch_truncated [OF that])
  have same: "outcome (fetchRepositories p' s') = outcome (fetchRepositories p s)"
    if "serves p s None pages" "length pages = MAX_PAGES" "hasNextPage (pageInfo (last pages))"
      "serves p' s' None pages'" "length pages' = MAX_PAGES"
      "\<not> hasNextPage (pageInfo (last pages'))" "map nodes pages' = map nodes pages"
  proof -
    from that(5) have "pages' \<noteq> []" by (auto simp: MAX_PAGES_def)
    with that(4,5,6) have "outcome (fetchRepositories p' s')
        = Inr (map toRepository (concat (map nodes pages')))"
      by (simp add: fetch_complete)
    moreover from that(1,2,3) have "outcome (fetchRepositories p s)
        = Inr (map toRepository (concat (map nodes pages)))"
      by (simp add: fetch_truncated)
    ultimately show ?thesis using that(7) by simp
  qed
  have endless: "outcome (fetchRepositories (always page) ())
        = Inr (map toRepository (concat (replicate MAX_PAGES (nodes page)))) \<and>
      Warn_max_pages MAX_PAGES \<in> set (console (fetchRepositories (always page) ())) \<and>
      length (requests_issued (fetchRepositories (always page) ())) = MAX_PAGES"
    if h: "hasNextPage (pageInfo page)"
  proof -
    have "length (cursors_for (replicate MAX_PAGES page)) = MAX_PAGES"
      by (simp add: cursors_for_def MAX_PAGES_def)
    then show ?thesis by (simp add: fetch_endless [OF h])
  qed
  have "MAX_PAGES = 100" by (simp add: MAX_PAGES_def)
  moreover note fetch_requests_bounded [of p s]
  ultimately show ?thesis using trunc same endless by blast
qed

text \<open>The theorem at the provider that always answers with the same page of one record.\<close>

theorem fetch_page_ceiling_witness:
  "hasNextPage (pageInfo (sample_page 2 0)) \<and>
   serves (always (sample_page 2 0)) () None (replicate 100 (sample_page 2 0)) \<and>
   outcome (fetchRepositories (always (sample_page 2 0)) ())
     = Inr (replicate 100 (toRepository (sample_repo 0))) \<and>
   length (requests_issued (fetchRepositories (always (sample_page 2 0)) ())) = 100 \<and>
   console (fetchRepositories (always (sample_page 2 0)) ())
     = [Warn_max_pages 100, Log_fetched 100 100]"
proof -
  let ?a = "sample_page 2 0"
  have h: "hasNextPage (pageInfo ?a)" by (simp add: sample_page_def)
  have sv: "serves (always ?a) () None (replicate 100 ?a)"
    using h by (rule serves_always)
  have n: "concat (map nodes (replicate 100 ?a)) = replicate 100 (sample_repo 0)"
    by (simp add: sample_page_def concat_replicate_single)
  have l: "length (replicate 100 ?a) = MAX_PAGES" by (simp add: MAX_PAGES_def)
  have la: "hasNextPage (pageInfo (last (replicate 100 ?a)))" using h by simp
  from fetch_page_ceiling [where p="always ?a" and s="()" and pages="replicate 100 ?a"
      and page="?a" and p'="always ?a" and s'="()" and pages'="[]"] sv l la
  have "outcome (fetchRepositories (always ?a) ())
          = Inr (map toRepository (concat (map nodes (replicate 100 ?a)))) \<and>
        console (fetchRepositories (always ?a) ())
          = [Warn_max_pages MAX_PAGES,
             Log_fetched (length (concat (map nodes (replicate 100 ?a)))) MAX_PAGES] \<and>
        length (requests_issued (fetchRepositories (always ?a) ())) = MAX_PAGES"
    by blast
  then have "outcome (fetchRepositories (always ?a) ())
          = Inr (replicate 100 (toRepository (sample_repo 0))) \<and>
        console (fetchRepositories (always ?a) ()) = [Warn_max_pages 100, Log_fetched 100 100] \<and>
        length (requests_issued (fetchRepositories (always ?a) ())) = 100"
    unfolding n by (simp add: MAX_PAGES_def)
  with h sv show ?thesis by blast
qed

text \<open>
  Claim C3 as stated fails where it says that the partial result is flagged as
  truncated: the fetch that was cut off at the ceiling, on a provider that never signals
  completion, and a complete fetch of 100 pages return the same value; they differ in
  the console only.
\<close>

theorem truncated_flag_counterexample:
  "outcome (fetchRepositories (always (sample_page 2 0)) ())
     = outcome (fetchRepositories scripted
         (map Inr (replicate 99 (sample_page 2 0) @ [sample_page 1 0]))) \<and>
   console (fetchRepositories (always (sample_page 2 0)) ())
     = [Warn_max_pages 100, Log_fetched 100 100] \<and>
   console (fetchRepositories scripted
         (map Inr (replicate 99 (sample_page 2 0) @ [sample_page 1 0])))
     = [Log_fetched 100 100]"
proof -
  let ?a = "sample_page 2 0" and ?b = "sample_page 1 0"
  let ?B = "replicate 99 ?a @ [?b]"
  have h: "hasNextPage (pageInfo ?a)" by (simp add: sample_page_def)
  have nb: "\<not> hasNextPage (pageInfo (last ?B))" by (simp add: sample_page_def)
  have c: "(100::nat) = Suc 99" by simp
  have nA: "concat (replicate MAX_PAGES (nodes ?a)) = replicate 100 (sample_repo 0)"
    by (simp add: sample_page_def concat_replicate_single MAX_PAGES_def)
  have "concat (map nodes ?B) = replicate 99 (sample_repo 0) @ [sample_repo 0]"
    by (simp add: sample_page_def concat_replicate_single)
  also have "\<dots> = replicate 100 (sample_repo 0)"
    unfolding c by (simp only: replicate_append_same replicate.simps)
  finally have nB: "concat (map nodes ?B) = replicate 100 (sample_repo 0)" .
  have "\<forall>page \<in> set (butlast ?B). hasNextPage (pageInfo page)"
    using h by (simp add: butlast_append)
  then have "serves scripted (map Inr ?B @ []) None ?B" by (rule serves_scripted)
  then have sB: "serves scripted (map Inr ?B) None ?B" by simp
  have lB: "length ?B \<le> MAX_PAGES" and neB: "?B \<noteq> []" by (simp_all add: MAX_PAGES_def)
  note B = fetch_complete [OF sB neB nb lB]
  note A = fetch_endless [OF h]
  have oA: "outcome (fetchRepositories (always ?a) ())
      = Inr (map toRepository (replicate 100 (sample_repo 0)))"
    by (simp only: A nA fetch_result.select_convs)
  have oB: "outcome (fetchRepositories scripted (map Inr ?B))
      = Inr (map toRepository (replicate 100 (sample_repo 0)))"
    by (simp only: B nB fetch_result.select_convs)
  have cA: "console (fetchRepositories (always ?a) ()) = [Warn_max_pages 100, Log_fetched 100 100]"
    by (simp only: A nA fetch_result.select_convs) (simp add: MAX_PAGES_def)
  have cB: "console (fetchRepositories scripted (map Inr ?B)) = [Log_fetched 100 100]"
    by (simp only: B nB fetch_result.select_convs) simp
  from oA oB cA cB show ?thesis by simp
qed

section \<open>Properties of the cipher\<close>

subsection \<open>The hex and base64 codecs\<close>



lemma hex_value_digit: "n < 16 \<Longrightarrow> hex_value (hex_digits ! n) = Some n"
proof -
  assume n: "n < 16"
  have "map_of (zip hex_digits [0..<16]) (hex_digits ! n) = Some ([0..<16] ! n)"
    using n by (intro map_of_zip_nth) (simp_all add: hex_digits_def)
  with n show ?thesis by (simp add: hex_value_def del: upt_rec_numeral)
qed

lemma hex_roundtrip: "hex_decode (hex_encode bs) = bs"
proof (induction bs)
  case Nil
  then show ?case by (simp add: hex_encode_def)
next
  case (Cons b bs)
  have e: "hex_encode (b # bs)
      = hex_digits ! (unat b div 16) # hex_digits ! (unat b mod 16) # hex_encode bs"
    by (simp add: hex_encode_def)
  have "unat b < 256" using unsigned_less [of b] by simp
  then have h: "unat b div 16 < 16" by simp
  have l: "unat b mod 16 < 16" by simp
  have "(of_nat (unat b div 16 * 16 + unat b mod 16) :: byte) = b" by simp
  then show ?case
    unfolding e using Cons.IH by (simp add: hex_value_digit [OF h] hex_value_digit [OF l])
qed


lemma b64_char_mem: "n < 64 \<Longrightarrow> b64_char n \<in> set b64_alphabet"
  unfolding b64_char_def by (rule nth_mem) (simp add: b64_alphabet_def)

lemma b64_value_char: "n < 64 \<Longrightarrow> b64_value (b64_char n) = Some n"
proof -
  assume n: "n < 64"
  have d: "distinct b64_alphabet" by (simp add: b64_alphabet_def)
  have "map_of (zip b64_alphabet [0..<64]) (b64_alphabet ! n) = Some ([0..<64] ! n)"
    using n d by (intro map_of_zip_nth) (simp_all add: b64_alphabet_def)
  then have m: "map_of (zip b64_alphabet [0..<64]) (b64_char n) = Some n"
    using n by (simp add: b64_char_def del: upt_rec_numeral)
  have "CHR ''-'' \<notin> set b64_alphabet" "CHR ''_'' \<notin> set b64_alphabet"
    by (simp_all add: b64_alphabet_def)
  with b64_char_mem [OF n] have "b64_char n \<noteq> CHR ''-''" "b64_char n \<noteq> CHR ''_''"
    by auto
  with m show ?thesis by (simp add: b64_value_def del: upt_rec_numeral)
qed

lemma b64_char_not_pad: "n < 64 \<Longrightarrow> b64_char n \<noteq> CHR ''=''"
proof -
  assume n: "n < 64"
  have "CHR ''='' \<notin> set b64_alphabet" by (simp add: b64_alphabet_def)
  with b64_char_mem [OF n] show ?thesis by auto
qed

lemma b64_sextets_char: "n < 64 \<Longrightarrow> b64_sextets (b64_char n # s) = n # b64_sextets s"
  by (simp add: b64_sextets_def b64_char_not_pad b64_value_char)

lemma b64_sextets_pad: "b64_sextets (CHR ''='' # s) = []"
  by (simp add: b64_sextets_def)

lemma b64_sextets_Nil: "b64_sextets [] = []"
  by (simp add: b64_sextets_def)

lemma byte_lt: "unat (b :: byte) < 256"
  using unsigned_less [of b] by simp

lemma sextet_bounds:
  fixes a b c :: nat
  assumes "a < 256" "b < 256" "c < 256"
  shows "a div 4 < 64" "a mod 4 * 16 < 64" "a mod 4 * 16 + b div 16 < 64"
    "b mod 16 * 4 < 64" "b mod 16 * 4 + c div 64 < 64" "c mod 64 < 64"
  using assms by simp_all

lemma sextets_join:
  fixes a b c :: nat
  shows "a div 4 * 4 + (a mod 4 * 16) div 16 = a"
    "b < 256 \<Longrightarrow> a div 4 * 4 + (a mod 4 * 16 + b div 16) div 16 = a"
    "b < 256 \<Longrightarrow> (a mod 4 * 16 + b div 16) mod 16 * 16 + (b mod 16 * 4) div 4 = b"
    "b < 256 \<Longrightarrow> c < 256 \<Longrightarrow>
       (a mod 4 * 16 + b div 16) mod 16 * 16 + (b mod 16 * 4 + c div 64) div 4 = b"
    "c < 256 \<Longrightarrow> (b mod 16 * 4 + c div 64) mod 4 * 64 + c mod 64 = c"
  by simp_all

lemma b64_bytes_one:
  "b64_bytes [unat (a :: byte) div 4, unat a mod 4 * 16] = [a]"
proof -
  have "b64_bytes [unat a div 4, unat a mod 4 * 16]
      = [of_nat (unat a div 4 * 4 + (unat a mod 4 * 16) div 16)]"
    by (simp only: b64_bytes.simps)
  also have "\<dots> = [a]" by (simp only: sextets_join) simp
  finally show ?thesis .
qed

lemma b64_bytes_two:
  "b64_bytes [unat (a :: byte) div 4, unat a mod 4 * 16 + unat (b :: byte) div 16,
              unat b mod 16 * 4] = [a, b]"
proof -
  have "b64_bytes [unat a div 4, unat a mod 4 * 16 + unat b div 16, unat b mod 16 * 4]
      = [of_nat (unat a div 4 * 4 + (unat a mod 4 * 16 + unat b div 16) div 16),
         of_nat ((unat a mod 4 * 16 + unat b div 16) mod 16 * 16 + (unat b mod 16 * 4) div 4)]"
    by (simp only: b64_bytes.simps)
  also have "\<dots> = [a, b]" by (simp only: sextets_join byte_lt) simp
  finally show ?thesis .
qed

lemma b64_bytes_three:
  "b64_bytes (unat (a :: byte) div 4 # (unat a mod 4 * 16 + unat (b :: byte) div 16)
              # (unat b mod 16 * 4 + unat (c :: byte) div 64) # unat c mod 64 # rest)
     = a # b # c # b64_bytes rest"
proof -
  have "b64_bytes (unat a div 4 # (unat a mod 4 * 16 + unat b div 16)
              # (unat b mod 16 * 4 + unat c div 64) # unat c mod 64 # rest)
      = [of_nat (unat a div 4 * 4 + (unat a mod 4 * 16 + unat b div 16) div 16),
         of_nat ((unat a mod 4 * 16 + unat b div 16) mod 16 * 16
                 + (unat b mod 16 * 4 + unat c div 64) div 4),
         of_nat ((unat b mod 16 * 4 + unat c div 64) mod 4 * 64 + unat c mod 64)]
        @ b64_bytes rest"
    by (simp only: b64_bytes.simps)
  also have "\<dots> = a # b # c # b64_bytes rest" by (simp only: sextets_join byte_lt) simp
  finally show ?thesis .
qed

lemma base64_roundtrip: "base64_decode (base64_encode bs) = bs"
proof (induction bs rule: base64_encode.induct)
  case 1
  then show ?case by (simp add: base64_decode_def b64_sextets_Nil)
next
  case (2 a)
  note s = sextet_bounds [OF byte_lt [of a] byte_lt [of a] byte_lt [of a]]
  show ?case
    by (simp only: base64_decode_def base64_encode.simps b64_sextets_char s b64_sextets_pad
        b64_bytes_one)
next
  case (3 a b)
  note s = sextet_bounds [OF byte_lt [of a] byte_lt [of b] byte_lt [of b]]
  show ?case
    by (simp only: base64_decode_def base64_encode.simps b64_sextets_char s b64_sextets_pad
        b64_bytes_two)
next
  case (4 a b c rest)
  note s = sextet_bounds [OF byte_lt [of a] byte_lt [of b] byte_lt [of c]]
  from 4 show ?case
    by (simp only: base64_decode_def base64_encode.simps b64_sextets_char s append_Cons
        append_Nil b64_bytes_three)
qed

subsection \<open>The UTF-8 codec\<close>



lemma scale64: "((a::nat) * 64 + b) * 64 = a * 4096 + b * 64"
  by simp

lemma scale4096: "((a::nat) * 64 + b) * 4096 = a * 262144 + b * 4096"
  by simp

lemma split64: "(q::nat) div 64 * 4096 + q mod 64 * 64 = q * 64"
  using scale64 [of "q div 64" "q mod 64"] by (simp only: div_mult_mod_eq)

lemma split4096: "(q::nat) div 64 * 262144 + q mod 64 * 4096 = q * 4096"
  using scale4096 [of "q div 64" "q mod 64"] by (simp only: div_mult_mod_eq)

lemma split3: "(cp::nat) div 4096 * 4096 + cp div 64 mod 64 * 64 + cp mod 64 = cp"
proof -
  have "cp div 4096 = cp div 64 div 64" by (simp add: div_mult2_eq [symmetric])
  then have "cp div 4096 * 4096 + cp div 64 mod 64 * 64 + cp mod 64
      = cp div 64 div 64 * 4096 + cp div 64 mod 64 * 64 + cp mod 64"
    by (simp only:)
  also have "\<dots> = cp div 64 * 64 + cp mod 64" by (simp only: split64)
  also have "\<dots> = cp" by (simp only: div_mult_mod_eq)
  finally show ?thesis .
qed

lemma split4:
  "(cp::nat) div 262144 * 262144 + cp div 4096 mod 64 * 4096 + cp div 64 mod 64 * 64 + cp mod 64
     = cp"
proof -
  have "cp div 262144 = cp div 4096 div 64" by (simp add: div_mult2_eq [symmetric])
  then have "cp div 262144 * 262144 + cp div 4096 mod 64 * 4096 + cp div 64 mod 64 * 64
        + cp mod 64
      = cp div 4096 div 64 * 262144 + cp div 4096 mod 64 * 4096 + cp div 64 mod 64 * 64
        + cp mod 64"
    by (simp only:)
  also have "\<dots> = cp div 4096 * 4096 + cp div 64 mod 64 * 64 + cp mod 64"
    by (simp only: split4096)
  also have "\<dots> = cp" by (rule split3)
  finally show ?thesis .
qed

lemma second_ED: "(cp::nat) div 4096 = 13 \<Longrightarrow> cp < 0xD800 \<Longrightarrow> cp div 64 mod 64 < 32"
proof -
  assume a: "cp div 4096 = 13" and b: "cp < 0xD800"
  have "cp div 4096 = cp div 64 div 64" by (simp add: div_mult2_eq [symmetric])
  with a have "cp div 64 div 64 = 13" by simp
  moreover have "cp div 64 = cp div 64 div 64 * 64 + cp div 64 mod 64" by simp
  ultimately have "cp div 64 = 832 + cp div 64 mod 64" by simp
  moreover from b have "cp div 64 < 864" by simp
  ultimately show ?thesis by linarith
qed

lemma second_F4: "(cp::nat) div 262144 = 4 \<Longrightarrow> cp < 0x110000 \<Longrightarrow> cp div 4096 mod 64 < 16"
proof -
  assume a: "cp div 262144 = 4" and b: "cp < 0x110000"
  have "cp div 262144 = cp div 4096 div 64" by (simp add: div_mult2_eq [symmetric])
  with a have "cp div 4096 div 64 = 4" by simp
  moreover have "cp div 4096 = cp div 4096 div 64 * 64 + cp div 4096 mod 64" by simp
  ultimately have "cp div 4096 = 256 + cp div 4096 mod 64" by simp
  moreover from b have "cp div 4096 < 272" by simp
  ultimately show ?thesis by linarith
qed


lemma unat_byte: "n < 256 \<Longrightarrow> unat (of_nat n :: byte) = n"
  by (simp add: unat_of_nat)


lemma decode_one:
  "unat b0 < 0x80 \<Longrightarrow> utf8_code_points (b0 # rest) = unat b0 # utf8_code_points rest"
  by (simp add: utf8_code_points.simps(2))

lemma decode_two:
  "between 0xC2 0xDF b0 \<Longrightarrow> between 0x80 0xBF b1 \<Longrightarrow>
   utf8_code_points (b0 # b1 # rest)
     = ((unat b0 - 0xC0) * 64 + tail_bits b1) # utf8_code_points rest"
  by (simp add: utf8_code_points.simps(2) between_def)

lemma decode_three:
  "between 0xE0 0xEF b0 \<Longrightarrow>
   between (if unat b0 = 0xE0 then 0xA0 else 0x80) (if unat b0 = 0xED then 0x9F else 0xBF) b1 \<Longrightarrow>
   between 0x80 0xBF b2 \<Longrightarrow>
   utf8_code_points (b0 # b1 # b2 # rest)
     = ((unat b0 - 0xE0) * 4096 + tail_bits b1 * 64 + tail_bits b2) # utf8_code_points rest"
  by (simp add: utf8_code_points.simps(2) [of b0] between_def)

lemma decode_four:
  "between 0xF0 0xF4 b0 \<Longrightarrow>
   between (if unat b0 = 0xF0 then 0x90 else 0x80) (if unat b0 = 0xF4 then 0x8F else 0xBF) b1 \<Longrightarrow>
   between 0x80 0xBF b2 \<Longrightarrow> between 0x80 0xBF b3 \<Longrightarrow>
   utf8_code_points (b0 # b1 # b2 # b3 # rest)
     = ((unat b0 - 0xF0) * 262144 + tail_bits b1 * 4096 + tail_bits b2 * 64 + tail_bits b3)
       # utf8_code_points rest"
  by (simp add: utf8_code_points.simps(2) [of b0] between_def)


lemma utf8_two:
  assumes "0x80 \<le> cp" "cp < 0x800"
  shows "utf8_code_points (utf8_bytes cp @ rest) = cp # utf8_code_points rest"
proof -
  let ?b0 = "of_nat (0xC0 + cp div 64) :: byte" and ?b1 = "of_nat (0x80 + cp mod 64) :: byte"
  from assms have q: "2 \<le> cp div 64" "cp div 64 < 32" by simp_all
  have u0: "unat ?b0 = 0xC0 + cp div 64" using q by (intro unat_byte) simp
  have u1: "unat ?b1 = 0x80 + cp mod 64" by (intro unat_byte) simp
  have "between 0xC2 0xDF ?b0" using q unfolding between_def u0 by simp
  moreover have "between 0x80 0xBF ?b1" unfolding between_def u1 by simp
  ultimately have "utf8_code_points (?b0 # ?b1 # rest)
      = ((unat ?b0 - 0xC0) * 64 + tail_bits ?b1) # utf8_code_points rest"
    by (rule decode_two)
  also have "(unat ?b0 - 0xC0) * 64 + tail_bits ?b1 = cp"
    unfolding tail_bits_def u0 u1 by simp
  finally show ?thesis using assms by (simp add: utf8_bytes_def)
qed

lemma utf8_three:
  assumes "0x800 \<le> cp" "cp < 0x10000" "\<not> (0xD800 \<le> cp \<and> cp \<le> 0xDFFF)"
  shows "utf8_code_points (utf8_bytes cp @ rest) = cp # utf8_code_points rest"
proof -
  let ?b0 = "of_nat (0xE0 + cp div 4096) :: byte"
  let ?b1 = "of_nat (0x80 + cp div 64 mod 64) :: byte"
  let ?b2 = "of_nat (0x80 + cp mod 64) :: byte"
  from assms have q: "cp div 4096 < 16" by simp
  have u0: "unat ?b0 = 0xE0 + cp div 4096" using q by (intro unat_byte) simp
  have u1: "unat ?b1 = 0x80 + cp div 64 mod 64" by (intro unat_byte) simp
  have u2: "unat ?b2 = 0x80 + cp mod 64" by (intro unat_byte) simp
  have lo: "32 \<le> cp div 64 mod 64" if "cp div 4096 = 0"
    using that assms(1) by simp
  have hi: "cp div 64 mod 64 < 32" if "cp div 4096 = 13"
  proof -
    have "cp < 0xD800 \<or> 0xE000 \<le> cp" using assms(3) by linarith
    moreover have "cp div 4096 \<ge> 14" if "0xE000 \<le> cp" using that by simp
    ultimately have "cp < 0xD800" using \<open>cp div 4096 = 13\<close> by fastforce
    with \<open>cp div 4096 = 13\<close> show ?thesis by (rule second_ED)
  qed
  have "between 0xE0 0xEF ?b0" using q unfolding between_def u0 by simp
  moreover have "between (if unat ?b0 = 0xE0 then 0xA0 else 0x80)
      (if unat ?b0 = 0xED then 0x9F else 0xBF) ?b1"
    unfolding between_def u0 u1 using lo hi by auto
  moreover have "between 0x80 0xBF ?b2" unfolding between_def u2 by simp
  ultimately have "utf8_code_points (?b0 # ?b1 # ?b2 # rest)
      = ((unat ?b0 - 0xE0) * 4096 + tail_bits ?b1 * 64 + tail_bits ?b2) # utf8_code_points rest"
    by (rule decode_three)
  also have "(unat ?b0 - 0xE0) * 4096 + tail_bits ?b1 * 64 + tail_bits ?b2 = cp"
    unfolding tail_bits_def u0 u1 u2 using split3 [of cp] by simp
  finally show ?thesis using assms by (simp add: utf8_bytes_def)
qed

lemma utf8_four:
  assumes "0x10000 \<le> cp" "cp < 0x110000"
  shows "utf8_code_points (utf8_bytes cp @ rest) = cp # utf8_code_points rest"
proof -
  let ?b0 = "of_nat (0xF0 + cp div 262144) :: byte"
  let ?b1 = "of_nat (0x80 + cp div 4096 mod 64) :: byte"
  let ?b2 = "of_nat (0x80 + cp div 64 mod 64) :: byte"
  let ?b3 = "of_nat (0x80 + cp mod 64) :: byte"
  from assms have q: "cp div 262144 \<le> 4" by simp
  have u0: "unat ?b0 = 0xF0 + cp div 262144" using q by (intro unat_byte) simp
  have u1: "unat ?b1 = 0x80 + cp div 4096 mod 64" by (intro unat_byte) simp
  have u2: "unat ?b2 = 0x80 + cp div 64 mod 64" by (intro unat_byte) simp
  have u3: "unat ?b3 = 0x80 + cp mod 64" by (intro unat_byte) simp
  have lo: "16 \<le> cp div 4096 mod 64" if "cp div 262144 = 0"
    using that assms(1) by simp
  have hi: "cp div 4096 mod 64 < 16" if "cp div 262144 = 4"
    using that assms(2) by (rule second_F4)
  have "between 0xF0 0xF4 ?b0" using q unfolding between_def u0 by simp
  moreover have "between (if unat ?b0 = 0xF0 then 0x90 else 0x80)
      (if unat ?b0 = 0xF4 then 0x8F else 0xBF) ?b1"
    unfolding between_def u0 u1 using lo hi by auto
  moreover have "between 0x80 0xBF ?b2" unfolding between_def u2 by simp
  moreover have "between 0x80 0xBF ?b3" unfolding between_def u3 by simp
  ultimately have "utf8_code_points (?b0 # ?b1 # ?b2 # ?b3 # rest)
      = ((unat ?b0 - 0xF0) * 262144 + tail_bits ?b1 * 4096 + tail_bits ?b2 * 64 + tail_bits ?b3)
        # utf8_code_points rest"
    by (rule decode_four)
  also have "(unat ?b0 - 0xF0) * 262144 + tail_bits ?b1 * 4096 + tail_bits ?b2 * 64 + tail_bits ?b3
      = cp"
    unfolding tail_bits_def u0 u1 u2 u3 using split4 [of cp] by simp
  finally show ?thesis using assms by (simp add: utf8_bytes_def)
qed

lemma utf8_code_points_bytes:
  assumes "scalar cp"
  shows "utf8_code_points (utf8_bytes cp @ rest) = cp # utf8_code_points rest"
proof -
  consider "cp < 0x80" | "0x80 \<le> cp" "cp < 0x800" | "0x800 \<le> cp" "cp < 0x10000"
    | "0x10000 \<le> cp"
    by linarith
  then show ?thesis
  proof cases
    case 1
    then have "unat (of_nat cp :: byte) = cp" by (intro unat_byte) simp
    with 1 show ?thesis by (simp add: utf8_bytes_def decode_one)
  next
    case 2
    then show ?thesis by (rule utf8_two)
  next
    case 3
    with assms show ?thesis by (intro utf8_three) (simp_all add: scalar_def)
  next
    case 4
    with assms show ?thesis by (intro utf8_four) (simp_all add: scalar_def)
  qed
qed

lemma utf8_code_points_concat:
  "list_all scalar cps \<Longrightarrow> utf8_code_points (concat (map utf8_bytes cps)) = cps"
  by (induction cps) (simp_all add: utf8_code_points_bytes)


lemma unit_lt: "unat (u :: 16 word) < 65536"
  using unsigned_less [of u] by simp

lemma scalar_lone_unit: "scalar (lone_unit u)"
  using unit_lt [of u]
  by (auto simp: scalar_def lone_unit_def is_high_surrogate_def is_low_surrogate_def)

lemma pair_value:
  assumes "is_high_surrogate u" "is_low_surrogate v"
  shows "0x10000 \<le> 0x10000 + (unat u - 0xD800) * 1024 + (unat v - 0xDC00)"
    and "0x10000 + (unat u - 0xD800) * 1024 + (unat v - 0xDC00) < 0x110000"
proof -
  from assms have "unat u \<le> 0xDBFF" "unat v \<le> 0xDFFF"
    by (simp_all add: is_high_surrogate_def is_low_surrogate_def)
  then show "0x10000 + (unat u - 0xD800) * 1024 + (unat v - 0xDC00) < 0x110000"
    by linarith
qed simp

lemma scalar_pair:
  assumes "is_high_surrogate u" "is_low_surrogate v"
  shows "scalar (0x10000 + (unat u - 0xD800) * 1024 + (unat v - 0xDC00))"
  using pair_value(1,2) [OF assms] by (simp add: scalar_def)

lemma code_points_scalar: "list_all scalar (code_points s)"
  by (induction s rule: code_points.induct) (simp_all add: scalar_lone_unit scalar_pair)

lemma code_units_lone:
  assumes "\<not> is_high_surrogate u" "\<not> is_low_surrogate u"
  shows "code_units (lone_unit u) = [u]"
  using assms unit_lt [of u] by (simp add: code_units_def lone_unit_def)

lemma code_units_pair:
  assumes h: "is_high_surrogate u" and l: "is_low_surrogate v"
  shows "code_units (0x10000 + (unat u - 0xD800) * 1024 + (unat v - 0xDC00)) = [u, v]"
proof -
  let ?x = "unat u - 0xD800" and ?y = "unat v - 0xDC00"
  from l have "unat v \<le> 0xDFFF" by (simp add: is_low_surrogate_def)
  then have y: "?y < 1024" by linarith
  have d: "(?x * 1024 + ?y) div 1024 = ?x" using y by simp
  have m: "(?x * 1024 + ?y) mod 1024 = ?y" using y by simp
  have "0xD800 + ?x = unat u" using h by (simp add: is_high_surrogate_def)
  then have a: "(of_nat (0xD800 + ?x) :: 16 word) = u" by (simp only:) simp
  have "0xDC00 + ?y = unat v" using l by (simp add: is_low_surrogate_def)
  then have b: "(of_nat (0xDC00 + ?y) :: 16 word) = v" by (simp only:) simp
  have "code_units (0x10000 + ?x * 1024 + ?y)
      = [of_nat (0xD800 + (?x * 1024 + ?y) div 1024), of_nat (0xDC00 + (?x * 1024 + ?y) mod 1024)]"
    by (simp add: code_units_def del: of_nat_add)
  then show ?thesis by (simp only: d m a b)
qed

lemma code_units_code_points:
  "well_formed s \<Longrightarrow> concat (map code_units (code_points s)) = s"
proof (induction s rule: code_points.induct)
  case 1
  then show ?case by simp
next
  case (2 u)
  then show ?case by (simp add: code_units_lone)
next
  case (3 u v rest)
  show ?case
  proof (cases "is_high_surrogate u")
    case True
    with "3.prems" have l: "is_low_surrogate v" and w: "well_formed rest" by simp_all
    from True l w "3.IH"(1) have "concat (map code_units (code_points rest)) = rest" by simp
    with True l show ?thesis by (simp add: code_units_pair)
  next
    case False
    with "3.prems" have n: "\<not> is_low_surrogate u" and w: "well_formed (v # rest)" by simp_all
    from False w "3.IH"(2) have "concat (map code_units (code_points (v # rest))) = v # rest"
      by simp
    with False n show ?thesis by (simp add: code_units_lone)
  qed
qed

lemma utf8_roundtrip: "well_formed s \<Longrightarrow> utf8_decode (utf8_encode s) = s"
  by (simp add: utf8_decode_def utf8_encode_def utf8_code_points_concat code_points_scalar
      code_units_code_points)

subsection \<open>Slices, and decryption after encryption\<close>


lemma slices:
  assumes "length salt = SALT_LENGTH" "length iv = IV_LENGTH" "length tag = TAG_LENGTH"
  shows "subarray (salt @ iv @ tag @ rest) 0 SALT_LENGTH = salt"
    and "subarray (salt @ iv @ tag @ rest) SALT_LENGTH (SALT_LENGTH + IV_LENGTH) = iv"
    and "subarray (salt @ iv @ tag @ rest) (SALT_LENGTH + IV_LENGTH)
           (SALT_LENGTH + IV_LENGTH + TAG_LENGTH) = tag"
    and "subarray_from (salt @ iv @ tag @ rest) (SALT_LENGTH + IV_LENGTH + TAG_LENGTH) = rest"
  using assms by (simp_all add: subarray_def subarray_from_def)

lemma slices_partition:
  "subarray buf 0 SALT_LENGTH
   @ subarray buf SALT_LENGTH (SALT_LENGTH + IV_LENGTH)
   @ subarray buf (SALT_LENGTH + IV_LENGTH) (SALT_LENGTH + IV_LENGTH + TAG_LENGTH)
   @ subarray_from buf (SALT_LENGTH + IV_LENGTH + TAG_LENGTH) = buf"
proof -
  have "take a xs @ take b (drop a xs) @ take c (drop (a + b) xs) @ drop (a + b + c) xs = xs"
    for a b c :: nat and xs :: buffer
  proof -
    have "take c (drop (a + b) xs) @ drop (a + b + c) xs = drop (a + b) xs"
      by (metis add.commute append_take_drop_id drop_drop)
    then have "take b (drop a xs) @ take c (drop (a + b) xs) @ drop (a + b + c) xs = drop a xs"
      by (metis add.commute append_take_drop_id drop_drop)
    then show ?thesis by simp
  qed
  from this [of SALT_LENGTH buf IV_LENGTH TAG_LENGTH]
  show ?thesis by (simp add: subarray_def subarray_from_def)
qed

lemma encrypt_blob:
  "fst (encrypt cfg L text w) =
     (let salt = map (random_source w) [random_used w ..< random_used w + SALT_LENGTH];
          key = pbkdf2Sync L (utf8_encode (encryptionKey cfg)) salt 100000 KEY_LENGTH;
          iv = map (random_source w)
                 [random_used w + SALT_LENGTH ..< random_used w + SALT_LENGTH + IV_LENGTH];
          sealed = gcm_encrypt L key iv (utf8_encode text)
      in base64_encode (salt @ iv @ snd sealed @ fst sealed))"
  by (simp add: encrypt_def randomBytes_def deriveKey_def called_def Let_def hex_roundtrip
      split: prod.splits)

lemma decrypt_result:
  "fst (decrypt cfg L blob w) =
     (let combined = base64_decode blob;
          salt = subarray combined 0 SALT_LENGTH;
          key = pbkdf2Sync L (utf8_encode (encryptionKey cfg)) salt 100000 KEY_LENGTH
      in case gcm_decrypt L key
                (subarray combined SALT_LENGTH (SALT_LENGTH + IV_LENGTH))
                (subarray combined (SALT_LENGTH + IV_LENGTH) (SALT_LENGTH + IV_LENGTH + TAG_LENGTH))
                (subarray_from combined (SALT_LENGTH + IV_LENGTH + TAG_LENGTH)) of
           Inl err \<Rightarrow> Inl err
         | Inr plain \<Rightarrow> Inr (utf8_decode plain))"
  by (simp add: decrypt_def deriveKey_def Let_def hex_roundtrip split: sum.splits)

lemma decrypt_calls:
  "snd (decrypt cfg L blob w) =
     (let combined = base64_decode blob;
          salt = subarray combined 0 SALT_LENGTH;
          key = pbkdf2Sync L (utf8_encode (encryptionKey cfg)) salt 100000 KEY_LENGTH
      in w\<lparr>calls := calls w @
           [Pbkdf2Sync salt,
            Decipheriv key (subarray combined SALT_LENGTH (SALT_LENGTH + IV_LENGTH))
              (subarray combined (SALT_LENGTH + IV_LENGTH)
                 (SALT_LENGTH + IV_LENGTH + TAG_LENGTH))]\<rparr>)"
  by (simp add: decrypt_def deriveKey_def called_def Let_def split: sum.splits)

lemma decrypt_encrypt:
  assumes "sound_crypto L"
  shows "fst (decrypt cfg L (fst (encrypt cfg L text w)) w')
           = Inr (utf8_decode (utf8_encode text))"
proof -
  let ?salt = "map (random_source w) [random_used w ..< random_used w + SALT_LENGTH]"
  let ?key = "pbkdf2Sync L (utf8_encode (encryptionKey cfg)) ?salt 100000 KEY_LENGTH"
  let ?iv = "map (random_source w)
                 [random_used w + SALT_LENGTH ..< random_used w + SALT_LENGTH + IV_LENGTH]"
  let ?sealed = "gcm_encrypt L ?key ?iv (utf8_encode text)"
  have ls: "length ?salt = SALT_LENGTH" and li: "length ?iv = IV_LENGTH" by simp_all
  from assms have lk: "length ?key = KEY_LENGTH" by (simp add: sound_crypto_def)
  from assms lk li have lt: "length (snd ?sealed) = TAG_LENGTH"
    and op: "gcm_decrypt L ?key ?iv (snd ?sealed) (fst ?sealed) = Inr (utf8_encode text)"
    unfolding sound_crypto_def by blast+
  have b: "base64_decode (fst (encrypt cfg L text w)) = ?salt @ ?iv @ snd ?sealed @ fst ?sealed"
    by (simp only: encrypt_blob Let_def base64_roundtrip)
  show ?thesis
    by (simp only: decrypt_result b Let_def slices [OF ls li lt] op sum.case)
qed


lemma sound_toy_crypto: "sound_crypto toy_crypto"
  by (simp add: sound_crypto_def toy_crypto_def toy_tag_def TAG_LENGTH_def comp_def)

lemma sound_truncating_crypto: "sound_crypto truncating_crypto"
  by (simp add: sound_crypto_def truncating_crypto_def toy_crypto_def toy_tag_def TAG_LENGTH_def
      comp_def)

lemma truncating_length_preserving: "length_preserving truncating_crypto"
  by (simp add: length_preserving_def truncating_crypto_def toy_crypto_def)

lemma truncating_accepts: "accepts_truncated_tag truncating_crypto 12"
  by (auto simp: accepts_truncated_tag_def truncating_crypto_def toy_crypto_def toy_tag_def
      min_def split: if_splits)

lemma utf8_empty: "utf8_encode [] = []" "utf8_decode [] = []"
  by (simp_all add: utf8_encode_def utf8_decode_def)

text \<open>
  The blob of the empty string is salt, nonce and tag. Cut inside the tag, it is decoded
  to the empty string by a decipher that accepts the tag cut there.
\<close>

lemma short_blob_decrypts:
  assumes s: "sound_crypto L" and p: "length_preserving L" and t: "accepts_truncated_tag L n"
    and n: "n < TAG_LENGTH"
  shows "length (take (SALT_LENGTH + IV_LENGTH + n) (base64_decode (fst (encrypt cfg L [] w))))
           = SALT_LENGTH + IV_LENGTH + n"
    and "fst (decrypt cfg L
           (base64_encode
              (take (SALT_LENGTH + IV_LENGTH + n) (base64_decode (fst (encrypt cfg L [] w))))) w')
           = Inr []"
proof -
  let ?salt = "map (random_source w) [random_used w ..< random_used w + SALT_LENGTH]"
  let ?key = "pbkdf2Sync L (utf8_encode (encryptionKey cfg)) ?salt 100000 KEY_LENGTH"
  let ?iv = "map (random_source w)
                 [random_used w + SALT_LENGTH ..< random_used w + SALT_LENGTH + IV_LENGTH]"
  let ?sealed = "gcm_encrypt L ?key ?iv []"
  let ?short = "take (SALT_LENGTH + IV_LENGTH + n) (base64_decode (fst (encrypt cfg L [] w)))"
  have ls: "length ?salt = SALT_LENGTH" and li: "length ?iv = IV_LENGTH" by simp_all
  from s have lk: "length ?key = KEY_LENGTH" by (simp add: sound_crypto_def)
  from s lk li have lt: "length (snd ?sealed) = TAG_LENGTH"
    and op: "gcm_decrypt L ?key ?iv (snd ?sealed) (fst ?sealed) = Inr []"
    unfolding sound_crypto_def by blast+
  from p have "length (fst ?sealed) = length ([] :: buffer)"
    unfolding length_preserving_def by blast
  then have ct: "fst ?sealed = []" by simp
  from t op ct have tr: "gcm_decrypt L ?key ?iv (take n (snd ?sealed)) [] = Inr []"
    unfolding accepts_truncated_tag_def by metis
  have b: "base64_decode (fst (encrypt cfg L [] w)) = ?salt @ ?iv @ snd ?sealed @ fst ?sealed"
    by (simp only: encrypt_blob Let_def base64_roundtrip utf8_empty)
  have sh: "?short = ?salt @ ?iv @ take n (snd ?sealed)"
    unfolding b ct using ls li by simp
  from lt n have ltn: "length (take n (snd ?sealed)) = n" by simp
  show "length ?short = SALT_LENGTH + IV_LENGTH + n"
    unfolding sh using ls li ltn by simp
  have sl: "subarray ?short 0 SALT_LENGTH = ?salt"
    "subarray ?short SALT_LENGTH (SALT_LENGTH + IV_LENGTH) = ?iv"
    "subarray ?short (SALT_LENGTH + IV_LENGTH) (SALT_LENGTH + IV_LENGTH + TAG_LENGTH)
       = take n (snd ?sealed)"
    "subarray_from ?short (SALT_LENGTH + IV_LENGTH + TAG_LENGTH) = []"
    unfolding sh using ls li ltn n by (simp_all add: subarray_def subarray_from_def)
  show "fst (decrypt cfg L (base64_encode ?short) w') = Inr []"
    by (simp only: decrypt_result base64_roundtrip Let_def sl tr sum.case utf8_empty)
qed

lemma utf8_lone_surrogate: "utf8_decode (utf8_encode [0xD800]) = [0xFFFD]"
proof -
  have "is_high_surrogate 0xD800" by (simp add: is_high_surrogate_def)
  then have "code_points [0xD800] = [0xFFFD]" by (simp add: lone_unit_def)
  then have "utf8_encode [0xD800] = utf8_bytes 0xFFFD @ []" by (simp add: utf8_encode_def)
  moreover have "scalar 0xFFFD" by (simp add: scalar_def)
  ultimately have "utf8_code_points (utf8_encode [0xD800]) = [0xFFFD]"
    by (simp only: utf8_code_points_bytes utf8_code_points.simps(1))
  then show ?thesis by (simp add: utf8_decode_def code_units_def)
qed

lemma decode_AAAA: "base64_decode ''AAAA'' = [0, 0, 0]"
proof -
  have "base64_encode [0, 0, 0] = ''AAAA''"
    by (simp add: b64_char_def b64_alphabet_def)
  then show ?thesis using base64_roundtrip [of "[0, 0, 0]"] by (simp only:)
qed

subsection \<open>The round trip\<close>

text \<open>
  Claim C1, as amended. With sound primitives, for every master key and every string
  that is well formed (every surrogate in it is part of a pair), decrypting the blob that
  \<open>encrypt\<close> produced, under the same key, returns exactly that string; this holds
  whatever the random source gave for the salt and the nonce.
\<close>

theorem cipher_round_trip:
  assumes "sound_crypto L" and "well_formed text"
  shows "fst (decrypt cfg L (fst (encrypt cfg L text w)) w') = Inr text"
  using decrypt_encrypt [OF assms(1)] utf8_roundtrip [OF assms(2)] by simp

text \<open>The theorem at the toy primitives and the string \<open>ghp_abc\<close>.\<close>

theorem cipher_round_trip_witness:
  "sound_crypto toy_crypto \<and> well_formed (js ''ghp_abc'') \<and>
   fst (decrypt sample_config toy_crypto
          (fst (encrypt sample_config toy_crypto (js ''ghp_abc'') sample_world)) sample_world)
     = Inr (js ''ghp_abc'')"
proof -
  have w: "well_formed (js ''ghp_abc'')"
    by (simp add: js_def is_high_surrogate_def is_low_surrogate_def)
  from cipher_round_trip [OF sound_toy_crypto w] sound_toy_crypto w show ?thesis by blast
qed

text \<open>
  Claim C1 as stated fails for a string with an unpaired surrogate: \<open>encrypt\<close> writes
  the text as UTF-8, which has no encoding of a lone surrogate and puts U+FFFD in its
  place; with sound primitives, the string of the one code unit D800 comes back as the
  string of the one code unit FFFD.
\<close>

theorem cipher_round_trip_counterexample:
  "sound_crypto toy_crypto \<and>
   fst (decrypt sample_config toy_crypto
          (fst (encrypt sample_config toy_crypto [0xD800] sample_world)) sample_world)
     = Inr [0xFFFD] \<and>
   [0xFFFD] \<noteq> [0xD800 :: 16 word]"
  using sound_toy_crypto
  by (simp add: decrypt_encrypt [OF sound_toy_crypto] utf8_lone_surrogate)

subsection \<open>Short blobs\<close>

text \<open>
  Claim C6, as amended. \<open>decrypt\<close> has no length check of its own. On every input it
  decodes the base64 text, cuts the bytes at 64, 80 and 96 with clamped slices (the four
  slices together are the whole buffer: nothing is cut away), derives the key from the
  salt slice and calls the decipher with the other three; it fails exactly when the
  decipher throws, and returns the decoded plaintext otherwise. So an input of fewer than
  \<open>64 + 16 + 16\<close> bytes is not always rejected: with sound primitives whose decipher
  accepts a tag cut to \<open>n < 16\<close> bytes, the blob of the empty string cut to its first
  \<open>64 + 16 + n\<close> bytes is decrypted to the empty string.
\<close>

theorem decrypt_no_length_check:
  "subarray (base64_decode blob) 0 SALT_LENGTH
     @ subarray (base64_decode blob) SALT_LENGTH (SALT_LENGTH + IV_LENGTH)
     @ subarray (base64_decode blob) (SALT_LENGTH + IV_LENGTH)
         (SALT_LENGTH + IV_LENGTH + TAG_LENGTH)
     @ subarray_from (base64_decode blob) (SALT_LENGTH + IV_LENGTH + TAG_LENGTH)
     = base64_decode blob \<and>
   calls (snd (decrypt cfg L blob w))
     = calls w @
       [Pbkdf2Sync (subarray (base64_decode blob) 0 SALT_LENGTH),
        Decipheriv
          (pbkdf2Sync L (utf8_encode (encryptionKey cfg))
             (subarray (base64_decode blob) 0 SALT_LENGTH) 100000 KEY_LENGTH)
          (subarray (base64_decode blob) SALT_LENGTH (SALT_LENGTH + IV_LENGTH))
          (subarray (base64_decode blob) (SALT_LENGTH + IV_LENGTH)
             (SALT_LENGTH + IV_LENGTH + TAG_LENGTH))] \<and>
   fst (decrypt cfg L blob w)
     = (case gcm_decrypt L
               (pbkdf2Sync L (utf8_encode (encryptionKey cfg))
                  (subarray (base64_decode blob) 0 SALT_LENGTH) 100000 KEY_LENGTH)
               (subarray (base64_decode blob) SALT_LENGTH (SALT_LENGTH + IV_LENGTH))
               (subarray (base64_decode blob) (SALT_LENGTH + IV_LENGTH)
                  (SALT_LENGTH + IV_LENGTH + TAG_LENGTH))
               (subarray_from (base64_decode blob) (SALT_LENGTH + IV_LENGTH + TAG_LENGTH)) of
          Inl err \<Rightarrow> Inl err
        | Inr plain \<Rightarrow> Inr (utf8_decode plain)) \<and>
   (sound_crypto L \<and> length_preserving L \<and> accepts_truncated_tag L n \<and> n < TAG_LENGTH \<longrightarrow>
      length (take (SALT_LENGTH + IV_LENGTH + n) (base64_decode (fst (encrypt cfg L [] w0))))
        = SALT_LENGTH + IV_LENGTH + n \<and>
      fst (decrypt cfg L
             (base64_encode
                (take (SALT_LENGTH + IV_LENGTH + n)
                   (base64_decode (fst (encrypt cfg L [] w0))))) w)
        = Inr [])"
proof -
  have "calls (snd (decrypt cfg L blob w))
     = calls w @
       [Pbkdf2Sync (subarray (base64_decode blob) 0 SALT_LENGTH),
        Decipheriv
          (pbkdf2Sync L (utf8_encode (encryptionKey cfg))
             (subarray (base64_decode blob) 0 SALT_LENGTH) 100000 KEY_LENGTH)
          (subarray (base64_decode blob) SALT_LENGTH (SALT_LENGTH + IV_LENGTH))
          (subarray (base64_decode blob) (SALT_LENGTH + IV_LENGTH)
             (SALT_LENGTH + IV_LENGTH + TAG_LENGTH))]"
    by (simp add: decrypt_calls Let_def)
  with slices_partition [of "base64_decode blob"] decrypt_result [of cfg L blob w]
    short_blob_decrypts(1) [where L=L and n=n and cfg=cfg and w=w0]
    short_blob_decrypts(2) [where L=L and n=n and cfg=cfg and w=w0 and w'=w]
  show ?thesis by (simp only: Let_def) blast
qed

text \<open>
  The theorem at the primitives with the decipher of truncated tags and \<open>n = 12\<close>: the
  blob of the empty string, cut to 92 bytes, is decrypted to the empty string.
\<close>

theorem decrypt_no_length_check_witness:
  "sound_crypto truncating_crypto \<and> length_preserving truncating_crypto \<and>
   accepts_truncated_tag truncating_crypto 12 \<and> 12 < TAG_LENGTH \<and>
   length (take (SALT_LENGTH + IV_LENGTH + 12)
             (base64_decode (fst (encrypt sample_config truncating_crypto [] sample_world))))
     = SALT_LENGTH + IV_LENGTH + 12 \<and>
   fst (decrypt sample_config truncating_crypto
          (base64_encode
             (take (SALT_LENGTH + IV_LENGTH + 12)
                (base64_decode (fst (encrypt sample_config truncating_crypto [] sample_world)))))
          sample_world)
     = Inr []"
proof -
  have n: "12 < TAG_LENGTH" by (simp add: TAG_LENGTH_def)
  from decrypt_no_length_check
    [of "''AAAA''" sample_config truncating_crypto sample_world 12 sample_world]
    sound_truncating_crypto truncating_length_preserving truncating_accepts n
  show ?thesis by blast
qed

text \<open>
  Claim C6 as stated fails twice. A short input is not rejected without attempting
  decryption: on a blob of three bytes, \<open>decrypt\<close> derives a key from the three bytes as
  salt and calls the decipher with an empty nonce and an empty tag. And a short input can
  yield plaintext: with sound primitives whose decipher accepts a tag of 12 bytes, the
  blob of the empty string cut to 92 bytes, which is less than \<open>64 + 16 + 16\<close>, is
  decrypted to the empty string.
\<close>

theorem decrypt_length_check_counterexample:
  "base64_decode ''AAAA'' = [0, 0, 0] \<and>
   calls (snd (decrypt sample_config toy_crypto ''AAAA'' sample_world))
     = [Pbkdf2Sync [0, 0, 0], Decipheriv (replicate 32 0) [] []] \<and>
   sound_crypto truncating_crypto \<and>
   length (take 92
             (base64_decode (fst (encrypt sample_config truncating_crypto [] sample_world))))
     = 92 \<and>
   fst (decrypt sample_config truncating_crypto
          (base64_encode
             (take 92
                (base64_decode (fst (encrypt sample_config truncating_crypto [] sample_world)))))
          sample_world)
     = Inr []"
proof -
  have n: "12 < TAG_LENGTH" by (simp add: TAG_LENGTH_def)
  have e: "SALT_LENGTH + IV_LENGTH + 12 = 92" by (simp add: SALT_LENGTH_def IV_LENGTH_def)
  note a = short_blob_decrypts(1)
    [OF sound_truncating_crypto truncating_length_preserving truncating_accepts n,
      where cfg=sample_config and w=sample_world, unfolded e]
  note b = short_blob_decrypts(2)
    [OF sound_truncating_crypto truncating_length_preserving truncating_accepts n,
      where cfg=sample_config and w=sample_world and w'=sample_world, unfolded e]
  have "calls (snd (decrypt sample_config toy_crypto ''AAAA'' sample_world))
     = [Pbkdf2Sync [0, 0, 0], Decipheriv (replicate 32 0) [] []]"
    by (simp add: decrypt_calls decode_AAAA Let_def subarray_def subarray_from_def
        toy_crypto_def sample_world_def SALT_LENGTH_def IV_LENGTH_def TAG_LENGTH_def
        KEY_LENGTH_def)
  with decode_AAAA sound_truncating_crypto a b show ?thesis by blast
qed
section \<open>Properties of the credentials service and the routes\<close>

subsection \<open>The matcher and the format of a token\<close>














subsection \<open>Saving a token\<close>








subsection \<open>The handler of the credentials at a value of any type\<close>

























subsection \<open>The handler of the repositories\<close>


















subsection \<open>Validation before cryptography\<close>



subsection \<open>The cache and a failed fetch\<close>




end
